theory Spec2Isabelle
  imports Main "HOL-Library.AList"
begin

section \<open>The chunk engine of Hub: data model\<close>

text \<open>
  The development follows \<^verbatim>\<open>hub/core/chunk_engine/write.py\<close>. Byte strings are lists of
  8-bit characters, keys are strings. Python mutates the providers in place and the
  mutations survive a raised exception, so every operation returns the providers it
  leaves behind, next to its result or its error.
\<close>

type_synonym bytes = "char list"

datatype dtype = uint8 | int64 | float64 | boolean

text \<open>A numpy array: its element type, its shape and its row-major buffer.\<close>

record ndarray =
  dtype :: dtype
  shape :: "nat list"
  data :: bytes

record index_map_entry =
  start_chunk :: nat
  end_chunk :: nat
  entry_dtype :: dtype
  entry_shape :: "nat list"

datatype error =
    TypeError
  | NotImplementedError
  | UnboundLocalError
  | CachingFailed
  | KeyError
  | IndexError
  | UnpicklingError

subsection \<open>Storage providers\<close>

text \<open>
  Modelled from the spec: the class \<^verbatim>\<open>MemoryProvider\<close> (\<^verbatim>\<open>write_impl.py\<close>) is missing.
  A provider is a mapping from key to byte sequence with a total capacity; the durable
  backend is unbounded (\<open>max_size = None\<close>). The mapping is kept as the list of its items in
  insertion order, the order in which a Python \<^verbatim>\<open>dict\<close> is iterated. \<open>used_space\<close> is the
  number of bytes held, so that setting a new key increases it by the length of the value
  and deleting a key decreases it by the same amount; \<open>has_space n\<close> holds iff
  \<open>used_space + n \<le> total capacity\<close>.
\<close>

record provider =
  mapper :: "(string \<times> bytes) list"
  max_size :: "nat option"

definition provider_get :: "provider \<Rightarrow> string \<Rightarrow> bytes option" where
  "provider_get p k = map_of (mapper p) k"

definition provider_set :: "provider \<Rightarrow> string \<Rightarrow> bytes \<Rightarrow> provider" where
  "provider_set p k v = p\<lparr>mapper := AList.update k v (mapper p)\<rparr>"

definition provider_del :: "provider \<Rightarrow> string \<Rightarrow> provider" where
  "provider_del p k = p\<lparr>mapper := AList.delete k (mapper p)\<rparr>"

definition used_space :: "provider \<Rightarrow> nat" where
  "used_space p = sum_list (map (\<lambda>(k, v). length v) (mapper p))"

definition has_space :: "provider \<Rightarrow> nat \<Rightarrow> bool" where
  "has_space p n = (case max_size p of None \<Rightarrow> True | Some m \<Rightarrow> used_space p + n \<le> m)"

text \<open>A Python \<^verbatim>\<open>dict\<close> holds every key once.\<close>

definition wf_provider :: "provider \<Rightarrow> bool" where
  "wf_provider p = distinct (map fst (mapper p))"

subsection \<open>Keys\<close>

text \<open>\<^verbatim>\<open>"%i" % n\<close> for a non-negative \<open>n\<close>: the decimal digits, most significant first.\<close>

fun string_of_nat :: "nat \<Rightarrow> string" where
  "string_of_nat n =
     (if n < 10 then [char_of (48 + n)]
      else string_of_nat (n div 10) @ [char_of (48 + n mod 10)])"

text \<open>\<^verbatim>\<open>os.path.join\<close> (POSIX) of two components.\<close>

definition path_join :: "string \<Rightarrow> string \<Rightarrow> string" where
  "path_join a b =
     (if b \<noteq> [] \<and> hd b = CHR ''/'' then b
      else if a = [] \<or> last a = CHR ''/'' then a @ b
      else a @ ''/'' @ b)"

definition chunk_key_of :: "string \<Rightarrow> nat \<Rightarrow> string" where
  "chunk_key_of key i = path_join key (''c'' @ string_of_nat i)"

definition index_map_key_of :: "string \<Rightarrow> string" where
  "index_map_key_of key = path_join key ''index_map''"

section \<open>The cache chain (\<^verbatim>\<open>write.py\<close>, lines 89 to 133)\<close>

definition write_to_storage :: "string \<Rightarrow> bytes \<Rightarrow> provider \<Rightarrow> provider" where
  "write_to_storage key b storage = provider_set storage key b"

text \<open>
  \<^verbatim>\<open>write_to_cache\<close>: the first tier with room takes the bytes; the result says whether
  one did.
\<close>

fun write_to_cache :: "string \<Rightarrow> bytes \<Rightarrow> provider list \<Rightarrow> bool \<times> provider list" where
  "write_to_cache key b [] = (False, [])"
| "write_to_cache key b (cache # rest) =
     (if has_space cache (length b) then (True, provider_set cache key b # rest)
      else (case write_to_cache key b rest of (ok, rest') \<Rightarrow> (ok, cache # rest')))"

text \<open>
  The body of the loop over one tier in \<^verbatim>\<open>flush_cache\<close>: every item is stored in the
  backend, the keys are collected, then every collected key is deleted from the tier.
\<close>

definition flush_tier :: "provider \<Rightarrow> provider \<Rightarrow> provider \<times> provider" where
  "flush_tier cache storage =
     (let items = mapper cache;
          storage' = foldl (\<lambda>s (key, chunk). provider_set s key chunk) storage items;
          keys = map fst items;
          cache' = foldl provider_del cache keys
      in (cache', storage'))"

fun flush_cache :: "provider list \<Rightarrow> provider \<Rightarrow> provider list \<times> provider" where
  "flush_cache [] storage = ([], storage)"
| "flush_cache (cache # rest) storage =
     (case flush_tier cache storage of (cache', storage') \<Rightarrow>
        (case flush_cache rest storage' of (rest', storage'') \<Rightarrow>
           (cache' # rest', storage'')))"

definition write_bytes_with_caching ::
  "string \<Rightarrow> bytes \<Rightarrow> provider list \<Rightarrow> provider \<Rightarrow> (error + unit) \<times> provider list \<times> provider" where
  "write_bytes_with_caching key b cache_chain storage =
     (if length cache_chain \<le> 0 then (Inr (), cache_chain, write_to_storage key b storage)
      else
        (case write_to_cache key b cache_chain of
           (True, chain1) \<Rightarrow> (Inr (), chain1, storage)
         | (False, chain1) \<Rightarrow>
             (case flush_cache chain1 storage of (chain2, storage2) \<Rightarrow>
                (case write_to_cache key b chain2 of
                   (True, chain3) \<Rightarrow> (Inr (), chain3, storage2)
                 | (False, chain3) \<Rightarrow> (Inl CachingFailed, chain3, storage2)))))"

section \<open>The chunk generator\<close>

text \<open>Consecutive slices of \<open>chunk_size\<close> bytes; the last one holds the remainder.\<close>

function chunks_of :: "nat \<Rightarrow> 'a list \<Rightarrow> 'a list list" where
  "chunks_of chunk_size b =
     (if chunk_size = 0 \<or> b = [] then []
      else take chunk_size b # chunks_of chunk_size (drop chunk_size b))"
  by pat_completeness auto
termination
  by (relation "measure (\<lambda>(chunk_size, b). length b)") auto

declare chunks_of.simps [simp del]

text \<open>
  Modelled from the spec: the function \<^verbatim>\<open>generate_chunks\<close> (\<^verbatim>\<open>generator.py\<close>) is missing.
  For empty input nothing is yielded. If \<open>last_chunk_num_bytes\<close> is given and less than
  \<open>chunk_size\<close>, the first slice fills the previous chunk: it has
  \<open>min (chunk_size - last_chunk_num_bytes) (length b)\<close> bytes. All later slices have
  \<open>chunk_size\<close> bytes, except the last, which is the remainder. The lazy sequence is the
  list of the slices in the order they are yielded. The contract requires
  \<open>chunk_size \<ge> 1\<close>; outside it the model yields no full slices.
\<close>

definition generate_chunks :: "bytes \<Rightarrow> nat \<Rightarrow> nat option \<Rightarrow> bytes list" where
  "generate_chunks b chunk_size last_chunk_num_bytes =
     (if b = [] then []
      else
        (let bytes_left_in_last_chunk =
               (case last_chunk_num_bytes of
                  None \<Rightarrow> 0
                | Some n \<Rightarrow> if n < chunk_size then chunk_size - n else 0)
         in (if bytes_left_in_last_chunk > 0 then [take bytes_left_in_last_chunk b] else [])
            @ chunks_of chunk_size (drop bytes_left_in_last_chunk b)))"

subsection \<open>The driver of \<^verbatim>\<open>tests/test_generate_chunks.py\<close>\<close>

text \<open>
  \<^verbatim>\<open>run_test\<close> keeps the list of chunks built so far and the value passed as
  \<open>last_chunk_num_bytes\<close> to the next call. A yielded slice extends the last chunk if that one
  holds fewer than \<open>chunk_size\<close> bytes, and starts a new chunk otherwise; then
  \<open>last_chunk_num_bytes\<close> becomes the length of the slice.
\<close>

definition fill_or_append :: "nat \<Rightarrow> bytes list \<Rightarrow> bytes \<Rightarrow> bytes list" where
  "fill_or_append chunk_size actual_chunks chunk =
     (if length actual_chunks \<le> 0 \<or> length (last actual_chunks) \<ge> chunk_size
      then actual_chunks @ [chunk]
      else butlast actual_chunks @ [last actual_chunks @ chunk])"

definition run_test_slice ::
  "nat \<Rightarrow> bytes list \<times> nat option \<Rightarrow> bytes \<Rightarrow> bytes list \<times> nat option" where
  "run_test_slice chunk_size st chunk_bytes =
     (fill_or_append chunk_size (fst st) chunk_bytes, Some (length chunk_bytes))"

definition run_test_object ::
  "nat \<Rightarrow> bytes list \<times> nat option \<Rightarrow> bytes \<Rightarrow> bytes list \<times> nat option" where
  "run_test_object chunk_size st bytes_object =
     foldl (run_test_slice chunk_size) st (generate_chunks bytes_object chunk_size (snd st))"

definition run_test :: "nat \<Rightarrow> bytes list \<Rightarrow> bytes list" where
  "run_test chunk_size bytes_batch =
     fst (foldl (run_test_object chunk_size) ([], None) bytes_batch)"

text \<open>All slices yielded during \<^verbatim>\<open>run_test\<close>, in order, before they are merged.\<close>

fun yielded_slices :: "nat \<Rightarrow> nat option \<Rightarrow> bytes list \<Rightarrow> bytes list" where
  "yielded_slices chunk_size lcnb [] = []"
| "yielded_slices chunk_size lcnb (bytes_object # rest) =
     (let slices = generate_chunks bytes_object chunk_size lcnb
      in slices @ yielded_slices chunk_size
           (if slices = [] then lcnb else Some (length (last slices))) rest)"

text \<open>
  The same driver, except that \<open>last_chunk_num_bytes\<close> becomes the number of bytes now held
  by the last chunk, the quantity that the generator subtracts from \<open>chunk_size\<close>.
\<close>

definition run_filled_slice ::
  "nat \<Rightarrow> bytes list \<times> nat option \<Rightarrow> bytes \<Rightarrow> bytes list \<times> nat option" where
  "run_filled_slice chunk_size st chunk_bytes =
     (let actual_chunks = fill_or_append chunk_size (fst st) chunk_bytes
      in (actual_chunks, Some (length (last actual_chunks))))"

definition run_filled_object ::
  "nat \<Rightarrow> bytes list \<times> nat option \<Rightarrow> bytes \<Rightarrow> bytes list \<times> nat option" where
  "run_filled_object chunk_size st bytes_object =
     foldl (run_filled_slice chunk_size) st (generate_chunks bytes_object chunk_size (snd st))"

definition run_filled :: "nat \<Rightarrow> bytes list \<Rightarrow> bytes list" where
  "run_filled chunk_size bytes_batch =
     fst (foldl (run_filled_object chunk_size) ([], None) bytes_batch)"

section \<open>The sample writer (\<^verbatim>\<open>write.py\<close>, lines 12 to 86)\<close>

text \<open>
  The loop of \<^verbatim>\<open>chunk_and_write_bytes\<close> over \<^verbatim>\<open>enumerate(chunk_gen)\<close>. \<open>bound\<close> is the value of
  \<open>local_chunk_index\<close>, \<open>None\<close> while the variable is unbound. A raised exception ends the
  loop.
\<close>

fun write_chunks ::
  "string \<Rightarrow> (bytes \<Rightarrow> bytes) \<Rightarrow> nat \<Rightarrow> nat option \<Rightarrow> bytes list \<Rightarrow> provider list \<Rightarrow> provider
   \<Rightarrow> (error + nat option) \<times> provider list \<times> provider" where
  "write_chunks key compressor i bound [] cache_chain storage = (Inr bound, cache_chain, storage)"
| "write_chunks key compressor i bound (chunk # rest) cache_chain storage =
     (let chunk_key = chunk_key_of key i;
          compressed_chunk = compressor chunk
      in (case write_bytes_with_caching chunk_key compressed_chunk cache_chain storage of
            (Inl e, cache_chain', storage') \<Rightarrow> (Inl e, cache_chain', storage')
          | (Inr u, cache_chain', storage') \<Rightarrow>
              write_chunks key compressor (Suc i) (Some i) rest cache_chain' storage'))"

definition chunk_and_write_bytes ::
  "bytes \<Rightarrow> string \<Rightarrow> (bytes \<Rightarrow> bytes) \<Rightarrow> nat \<Rightarrow> provider \<Rightarrow> provider list
   \<Rightarrow> (error + nat \<times> nat) \<times> provider list \<times> provider" where
  "chunk_and_write_bytes b key compressor chunk_size storage cache_chain =
     (let lcnb = None;
          chunk_gen = generate_chunks b chunk_size lcnb
      in (case write_chunks key compressor 0 None chunk_gen cache_chain storage of
            (Inl e, cache_chain', storage') \<Rightarrow> (Inl e, cache_chain', storage')
          | (Inr local_chunk_index, cache_chain', storage') \<Rightarrow>
              (case flush_cache cache_chain' storage' of (cache_chain'', storage'') \<Rightarrow>
                 (case local_chunk_index of
                    None \<Rightarrow> (Inl UnboundLocalError, cache_chain'', storage'')
                  | Some last_index \<Rightarrow> (Inr (0, last_index), cache_chain'', storage'')))))"

text \<open>
  Modelled from the spec: the function \<^verbatim>\<open>array_to_bytes\<close> (\<^verbatim>\<open>util.py\<close>) is missing. The
  array is serialised to its flat row-major buffer.
\<close>

definition array_to_bytes :: "ndarray \<Rightarrow> bytes" where
  "array_to_bytes array = data array"

text \<open>
  \<^verbatim>\<open>chunk_and_write_array\<close>. \<^verbatim>\<open>pickle.dumps\<close> is a library function and a parameter here.
  Line 27 is \<^verbatim>\<open>raise NotImplemented\<close>: the constant \<^verbatim>\<open>NotImplemented\<close> is no exception class,
  so Python raises a \<^verbatim>\<open>TypeError\<close> there, before anything else is done.
\<close>

definition chunk_and_write_array ::
  "(index_map_entry list \<Rightarrow> bytes) \<Rightarrow> ndarray \<Rightarrow> string \<Rightarrow> (bytes \<Rightarrow> bytes) \<Rightarrow> nat \<Rightarrow> provider
   \<Rightarrow> provider list \<Rightarrow> bool \<Rightarrow> (error + unit) \<times> provider list \<times> provider" where
  "chunk_and_write_array pickle_dumps array key compressor chunk_size storage cache_chain batched =
     (if batched then (Inl TypeError, cache_chain, storage)
      else
        (let b = array_to_bytes array
         in (case chunk_and_write_bytes b key compressor chunk_size storage cache_chain of
               (Inl e, cache_chain', storage') \<Rightarrow> (Inl e, cache_chain', storage')
             | (Inr (first_index, last_index), cache_chain', storage') \<Rightarrow>
                 (let index_map = [] @
                        [\<lparr>start_chunk = first_index, end_chunk = last_index,
                          entry_dtype = dtype array, entry_shape = shape array\<rparr>];
                      index_map_key = index_map_key_of key
                  in (Inr (), cache_chain',
                      write_to_storage index_map_key (pickle_dumps index_map) storage')))))"

text \<open>
  What a flush of the chain brings to the backend: the items of all tiers, a later tier
  overriding an earlier one at the same key.
\<close>

fun cached :: "provider list \<Rightarrow> string \<Rightarrow> bytes option" where
  "cached [] = Map.empty"
| "cached (cache # rest) = provider_get cache ++ cached rest"

subsection \<open>Well-chunked lists\<close>

text \<open>
  Every chunk but the last holds exactly \<open>c\<close> bytes, and the last one holds between 1 and
  \<open>c\<close> bytes.
\<close>

definition chunked :: "nat \<Rightarrow> 'a list list \<Rightarrow> bool" where
  "chunked c chunks =
     ((\<forall>ch \<in> set (butlast chunks). length ch = c) \<and>
      (chunks \<noteq> [] \<longrightarrow> 0 < length (last chunks) \<and> length (last chunks) \<le> c))"

text \<open>The driver state passes on the number of bytes held by the last chunk.\<close>

definition threaded :: "bytes list \<times> nat option \<Rightarrow> bool" where
  "threaded st = (snd st = (if fst st = [] then None else Some (length (last (fst st)))))"

subsection \<open>What a reader of the flushed backend would see\<close>

text \<open>
  The backend with the content of the chain laid over it: the backend as the next flush
  leaves it.
\<close>

definition visible :: "provider list \<Rightarrow> provider \<Rightarrow> string \<Rightarrow> bytes option" where
  "visible cache_chain storage = provider_get storage ++ cached cache_chain"

definition tier_keys :: "provider list \<Rightarrow> string set" where
  "tier_keys cache_chain = (\<Union>cache \<in> set cache_chain. fst ` set (mapper cache))"

text \<open>A payload of \<open>n\<close> bytes fits a tier if the empty tier has room for it.\<close>

definition fits :: "provider \<Rightarrow> nat \<Rightarrow> bool" where
  "fits cache n = (case max_size cache of None \<Rightarrow> True | Some m \<Rightarrow> n \<le> m)"

definition fits_some :: "provider list \<Rightarrow> nat \<Rightarrow> bool" where
  "fits_some cache_chain n = (cache_chain = [] \<or> (\<exists>cache \<in> set cache_chain. fits cache n))"

subsection \<open>A compressor for the examples\<close>

text \<open>
  A run of four \<open>a\<close> is coded in two bytes; any other chunk is stored raw behind a marker
  byte, one byte longer than it was.
\<close>

definition toy_compressor :: "bytes \<Rightarrow> bytes" where
  "toy_compressor chunk = (if chunk = ''aaaa'' then ''4a'' else CHR ''r'' # chunk)"

definition toy_decompressor :: "bytes \<Rightarrow> bytes" where
  "toy_decompressor z = (if z = ''4a'' then ''aaaa'' else tl z)"

section \<open>The sample reader\<close>

text \<open>The chunks with the given indices, in order, each decompressed, then concatenated.\<close>

fun read_chunks ::
  "(bytes \<Rightarrow> bytes) \<Rightarrow> string \<Rightarrow> provider \<Rightarrow> nat list \<Rightarrow> error + bytes" where
  "read_chunks decompressor key storage [] = Inr []"
| "read_chunks decompressor key storage (i # rest) =
     (case provider_get storage (chunk_key_of key i) of
        None \<Rightarrow> Inl KeyError
      | Some chunk \<Rightarrow>
          (case read_chunks decompressor key storage rest of
             Inl e \<Rightarrow> Inl e
           | Inr b \<Rightarrow> Inr (decompressor chunk @ b)))"

text \<open>
  Modelled from the spec: the function \<^verbatim>\<open>read_sample\<close> is missing. The index map of the key
  is loaded and deserialised (not found if absent); the entry at \<open>sample_index\<close> is taken
  (out of range outside \<open>[0, len)\<close>); the chunks \<open>start_chunk..end_chunk\<close> are fetched from the
  backend in ascending order and decompressed; their concatenation is returned as an
  array of the recorded dtype and shape. \<^verbatim>\<open>pickle.loads\<close> and the decompressor are
  parameters.
\<close>

definition read_sample ::
  "(bytes \<Rightarrow> index_map_entry list option) \<Rightarrow> (bytes \<Rightarrow> bytes) \<Rightarrow> string \<Rightarrow> nat \<Rightarrow> provider
   \<Rightarrow> error + ndarray" where
  "read_sample pickle_loads decompressor key sample_index storage =
     (case provider_get storage (index_map_key_of key) of
        None \<Rightarrow> Inl KeyError
      | Some blob \<Rightarrow>
          (case pickle_loads blob of
             None \<Rightarrow> Inl UnpicklingError
           | Some index_map \<Rightarrow>
               if sample_index \<ge> length index_map then Inl IndexError
               else
                 (let entry = index_map ! sample_index
                  in (case read_chunks decompressor key storage
                             [start_chunk entry ..< Suc (end_chunk entry)] of
                        Inl e \<Rightarrow> Inl e
                      | Inr b \<Rightarrow>
                          Inr \<lparr>dtype = entry_dtype entry, shape = entry_shape entry, data = b\<rparr>))))"

section \<open>The shape normalizer\<close>

text \<open>Trailing dimensions of size 1 are dropped while the rank exceeds 2.\<close>

function squeeze_tail :: "nat list \<Rightarrow> nat list" where
  "squeeze_tail s = (if 2 < length s \<and> last s = 1 then squeeze_tail (butlast s) else s)"
  by pat_completeness auto
termination
  by (relation "measure length") auto

declare squeeze_tail.simps [simp del]

text \<open>
  Modelled from the spec: the function \<^verbatim>\<open>normalize_and_batchify_shape\<close> (\<^verbatim>\<open>util.py\<close>) is
  missing. An unbatched array gets a leading dimension of size 1; then the rank is
  reduced to the smallest rank of at least 2 that leaves no trailing 1, so that a shape of
  1s only collapses to \<open>(1, 1)\<close>, batched or not, as \<^verbatim>\<open>tests/test_utils.py\<close> expects. It is a
  reshape: the buffer and the dtype are kept.
\<close>

definition normalize_shape :: "nat list \<Rightarrow> bool \<Rightarrow> nat list" where
  "normalize_shape s batched = squeeze_tail (if batched then s else 1 # s)"

definition normalize_and_batchify_shape :: "ndarray \<Rightarrow> bool \<Rightarrow> ndarray" where
  "normalize_and_batchify_shape array batched =
     array\<lparr>shape := normalize_shape (shape array) batched\<rparr>"

text \<open>The number of bytes of one element, and the elements of an array in row-major order.\<close>

fun itemsize :: "dtype \<Rightarrow> nat" where
  "itemsize uint8 = 1"
| "itemsize int64 = 8"
| "itemsize float64 = 8"
| "itemsize boolean = 1"

definition flatten :: "ndarray \<Rightarrow> bytes list" where
  "flatten array = chunks_of (itemsize (dtype array)) (data array)"

subsection \<open>A serialiser for the examples\<close>

text \<open>
  A stand-in for \<^verbatim>\<open>pickle\<close> in the examples: numbers in unary, each closed by \<open>0\<close>; an entry
  is its two chunk indices, the type character of its dtype, its rank and its dimensions;
  an index map is the number of its entries and the entries.
\<close>

definition enc_nat :: "nat \<Rightarrow> bytes" where
  "enc_nat n = replicate n (CHR ''1'') @ ''0''"

fun enc_dtype :: "dtype \<Rightarrow> char" where
  "enc_dtype uint8 = CHR ''B''"
| "enc_dtype int64 = CHR ''q''"
| "enc_dtype float64 = CHR ''d''"
| "enc_dtype boolean = CHR ''?''"

definition enc_entry :: "index_map_entry \<Rightarrow> bytes" where
  "enc_entry e =
     enc_nat (start_chunk e) @ enc_nat (end_chunk e) @ [enc_dtype (entry_dtype e)] @
     enc_nat (length (entry_shape e)) @ concat (map enc_nat (entry_shape e))"

definition toy_dumps :: "index_map_entry list \<Rightarrow> bytes" where
  "toy_dumps index_map = enc_nat (length index_map) @ concat (map enc_entry index_map)"

fun dec_nat :: "bytes \<Rightarrow> (nat \<times> bytes) option" where
  "dec_nat [] = None"
| "dec_nat (c # cs) =
     (if c = CHR ''0'' then Some (0, cs)
      else if c = CHR ''1'' then
        (case dec_nat cs of None \<Rightarrow> None | Some (n, rest) \<Rightarrow> Some (Suc n, rest))
      else None)"

fun dec_nats :: "nat \<Rightarrow> bytes \<Rightarrow> (nat list \<times> bytes) option" where
  "dec_nats 0 b = Some ([], b)"
| "dec_nats (Suc k) b =
     (case dec_nat b of
        None \<Rightarrow> None
      | Some (n, rest) \<Rightarrow>
          (case dec_nats k rest of None \<Rightarrow> None | Some (ns, rest') \<Rightarrow> Some (n # ns, rest')))"

definition dec_dtype :: "char \<Rightarrow> dtype option" where
  "dec_dtype c =
     (if c = CHR ''B'' then Some uint8
      else if c = CHR ''q'' then Some int64
      else if c = CHR ''d'' then Some float64
      else if c = CHR ''?'' then Some boolean
      else None)"

definition dec_entry :: "bytes \<Rightarrow> (index_map_entry \<times> bytes) option" where
  "dec_entry b =
     (case dec_nat b of
        None \<Rightarrow> None
      | Some (s, b1) \<Rightarrow>
          (case dec_nat b1 of
             None \<Rightarrow> None
           | Some (e, b2) \<Rightarrow>
               (case b2 of
                  [] \<Rightarrow> None
                | c # b3 \<Rightarrow>
                    (case dec_dtype c of
                       None \<Rightarrow> None
                     | Some d \<Rightarrow>
                         (case dec_nat b3 of
                            None \<Rightarrow> None
                          | Some (k, b4) \<Rightarrow>
                              (case dec_nats k b4 of
                                 None \<Rightarrow> None
                               | Some (sh, b5) \<Rightarrow>
                                   Some (\<lparr>start_chunk = s, end_chunk = e, entry_dtype = d,
                                          entry_shape = sh\<rparr>, b5)))))))"

fun dec_entries :: "nat \<Rightarrow> bytes \<Rightarrow> (index_map_entry list \<times> bytes) option" where
  "dec_entries 0 b = Some ([], b)"
| "dec_entries (Suc k) b =
     (case dec_entry b of
        None \<Rightarrow> None
      | Some (e, rest) \<Rightarrow>
          (case dec_entries k rest of None \<Rightarrow> None | Some (es, rest') \<Rightarrow> Some (e # es, rest')))"

definition toy_loads :: "bytes \<Rightarrow> index_map_entry list option" where
  "toy_loads b =
     (case dec_nat b of
        None \<Rightarrow> None
      | Some (k, rest) \<Rightarrow>
          (case dec_entries k rest of
             None \<Rightarrow> None
           | Some (index_map, rest') \<Rightarrow> if rest' = [] then Some index_map else None))"

section \<open>Properties of the cache chain\<close>

lemma provider_get_set [simp]:
  "provider_get (provider_set p k v) k' = (if k' = k then Some v else provider_get p k')"
  by (simp add: provider_get_def provider_set_def update_conv')

lemma max_size_set [simp]: "max_size (provider_set p k v) = max_size p"
  by (simp add: provider_set_def)

lemma max_size_del [simp]: "max_size (provider_del p k) = max_size p"
  by (simp add: provider_del_def)

lemma foldl_del_mapper:
  "mapper (foldl provider_del p ks) = filter (\<lambda>(k, v). k \<notin> set ks) (mapper p)"
proof (induction ks arbitrary: p)
  case Nil
  then show ?case by simp
next
  case (Cons k ks)
  have "mapper (provider_del p k) = filter (\<lambda>(k', v). k' \<noteq> k) (mapper p)"
    by (simp add: provider_del_def AList.delete_eq) (metis)
  with Cons show ?case by (auto intro: filter_cong)
qed

lemma foldl_del_max_size [simp]: "max_size (foldl provider_del p ks) = max_size p"
  by (induction ks arbitrary: p) simp_all

lemma foldl_set_get:
  "provider_get (foldl (\<lambda>s (key, chunk). provider_set s key chunk) s items) k =
     (case map_of (rev items) k of None \<Rightarrow> provider_get s k | Some v \<Rightarrow> Some v)"
proof (induction items arbitrary: s)
  case Nil
  then show ?case by simp
next
  case (Cons x items)
  obtain a b where x: "x = (a, b)" by (cases x)
  show ?case
    by (simp add: x Cons map_add_def split: option.splits)
qed

lemma foldl_set_max_size [simp]:
  "max_size (foldl (\<lambda>s (key, chunk). provider_set s key chunk) s items) = max_size s"
  by (induction items arbitrary: s) (simp_all add: split_def)

lemma map_of_rev_distinct: "distinct (map fst xs) \<Longrightarrow> map_of (rev xs) = map_of xs"
proof (induction xs)
  case Nil
  then show ?case by simp
next
  case (Cons x xs)
  obtain a b where x: "x = (a, b)" by (cases x)
  from Cons.prems have "map_of xs a = None"
    by (simp add: x map_of_eq_None_iff)
  with Cons show ?case
    by (auto simp: x map_add_def fun_eq_iff split: option.splits)
qed

lemma flush_tier_cache:
  "fst (flush_tier cache storage) = cache\<lparr>mapper := []\<rparr>"
proof -
  have "mapper (foldl provider_del cache (map fst (mapper cache))) = []"
    by (force simp: foldl_del_mapper filter_empty_conv)
  moreover have "max_size (foldl provider_del cache (map fst (mapper cache))) = max_size cache"
    by simp
  ultimately show ?thesis
    by (simp add: flush_tier_def Let_def)
qed

lemma flush_tier_storage:
  assumes "wf_provider cache"
  shows "provider_get (snd (flush_tier cache storage)) k =
     (case provider_get cache k of None \<Rightarrow> provider_get storage k | Some v \<Rightarrow> Some v)"
  using assms
  by (simp add: flush_tier_def Let_def foldl_set_get wf_provider_def map_of_rev_distinct provider_get_def[of cache])



lemma flush_cache_chain:
  "fst (flush_cache cache_chain storage) = map (\<lambda>cache. cache\<lparr>mapper := []\<rparr>) cache_chain"
proof (induction cache_chain arbitrary: storage)
  case Nil
  then show ?case by simp
next
  case (Cons cache rest)
  have "fst (flush_cache rest (snd (flush_tier cache storage))) =
      map (\<lambda>cache. cache\<lparr>mapper := []\<rparr>) rest"
    by (rule Cons.IH)
  then show ?case
    using flush_tier_cache [of cache storage]
    by (simp add: split_def)
qed

lemma flush_cache_storage:
  "\<forall>cache \<in> set cache_chain. wf_provider cache \<Longrightarrow>
   provider_get (snd (flush_cache cache_chain storage)) = provider_get storage ++ cached cache_chain"
proof (induction cache_chain arbitrary: storage)
  case Nil
  then show ?case by simp
next
  case (Cons cache rest)
  have wf: "wf_provider cache" using Cons.prems by simp
  have "provider_get (snd (flush_tier cache storage)) = provider_get storage ++ provider_get cache"
    by (rule ext) (simp add: flush_tier_storage [OF wf] map_add_def)
  moreover have "provider_get (snd (flush_cache rest (snd (flush_tier cache storage)))) =
      provider_get (snd (flush_tier cache storage)) ++ cached rest"
    using Cons.prems by (intro Cons.IH) simp
  ultimately show ?case
    by (simp add: split_def)
qed

lemma flush_tier_max_size [simp]:
  "max_size (snd (flush_tier cache storage)) = max_size storage"
  by (simp add: flush_tier_def Let_def)

lemma flush_cache_max_size [simp]:
  "max_size (snd (flush_cache cache_chain storage)) = max_size storage"
  by (induction cache_chain arbitrary: storage) (simp_all add: split_def)

lemma flush_cache_empty:
  "\<forall>cache \<in> set cache_chain. mapper cache = [] \<Longrightarrow>
   snd (flush_cache cache_chain storage) = storage"
  by (induction cache_chain arbitrary: storage) (simp_all add: split_def flush_tier_def Let_def)

lemma cached_last_holder:
  "i < length cache_chain \<Longrightarrow> provider_get (cache_chain ! i) k = Some v \<Longrightarrow>
   \<forall>j. i < j \<and> j < length cache_chain \<longrightarrow> provider_get (cache_chain ! j) k = None \<Longrightarrow>
   cached cache_chain k = Some v"
proof (induction cache_chain arbitrary: i)
  case Nil
  then show ?case by simp
next
  case (Cons cache rest)
  show ?case
  proof (cases i)
    case 0
    have "cached rest k = None"
    proof -
      have "\<forall>j < length rest. provider_get (rest ! j) k = None"
        using Cons.prems(3) 0 by auto
      then show ?thesis
        by (induction rest) (auto simp: map_add_def nth_Cons split: nat.splits option.splits)
    qed
    with Cons.prems 0 show ?thesis by (simp add: map_add_def)
  next
    case (Suc i')
    have "cached rest k = Some v"
    proof (rule Cons.IH)
      show "i' < length rest" using Cons.prems(1) Suc by simp
      show "provider_get (rest ! i') k = Some v" using Cons.prems(2) Suc by simp
      show "\<forall>j. i' < j \<and> j < length rest \<longrightarrow> provider_get (rest ! j) k = None"
        using Cons.prems(3) Suc by auto
    qed
    then show ?thesis by (simp add: map_add_def)
  qed
qed

lemma cached_none:
  "\<forall>cache \<in> set cache_chain. provider_get cache k = None \<Longrightarrow> cached cache_chain k = None"
  by (induction cache_chain) (simp_all add: map_add_def)

lemma used_space_empty [simp]: "mapper p = [] \<Longrightarrow> used_space p = 0"
  by (simp add: used_space_def)

lemma write_to_cache_first:
  "i < length cache_chain \<Longrightarrow> has_space (cache_chain ! i) (length b) \<Longrightarrow>
   \<forall>j < i. \<not> has_space (cache_chain ! j) (length b) \<Longrightarrow>
   write_to_cache key b cache_chain =
     (True, cache_chain[i := provider_set (cache_chain ! i) key b])"
proof (induction cache_chain arbitrary: i)
  case Nil
  then show ?case by simp
next
  case (Cons cache rest)
  show ?case
  proof (cases i)
    case 0
    with Cons.prems show ?thesis by simp
  next
    case (Suc i')
    have no: "\<not> has_space cache (length b)"
      using Cons.prems(3) Suc by auto
    have "write_to_cache key b rest = (True, rest[i' := provider_set (rest ! i') key b])"
    proof (rule Cons.IH)
      show "i' < length rest" using Cons.prems(1) Suc by simp
      show "has_space (rest ! i') (length b)" using Cons.prems(2) Suc by simp
      show "\<forall>j < i'. \<not> has_space (rest ! j) (length b)"
        using Cons.prems(3) Suc by auto
    qed
    with no Suc show ?thesis by simp
  qed
qed

lemma write_to_cache_none:
  "\<forall>cache \<in> set cache_chain. \<not> has_space cache (length b) \<Longrightarrow>
   write_to_cache key b cache_chain = (False, cache_chain)"
  by (induction cache_chain) simp_all

text \<open>
  Claim C8. A call with \<open>batched = True\<close> raises before anything is serialised, chunked or
  stored: for every input the cache chain and the storage (the index map with it) are
  the ones passed in. The exception raised is a \<^verbatim>\<open>TypeError\<close>, not a not-implemented error:
  line 27 raises the constant \<^verbatim>\<open>NotImplemented\<close>, which is no exception.
\<close>

theorem batched_write_fails_fast:
  "chunk_and_write_array pickle_dumps array key compressor chunk_size storage cache_chain True =
     (Inl TypeError, cache_chain, storage) \<and>
   fst (chunk_and_write_array pickle_dumps array key compressor chunk_size storage cache_chain True)
     \<noteq> Inl NotImplementedError"
  by (simp add: chunk_and_write_array_def)

text \<open>
  Claim C7. A flush empties every tier, so that each holds no key and reports
  \<open>used_space = 0\<close>, and leaves in the backend its old content overridden by the items of
  the tiers, copied in order: a pair held by a tier is in the backend afterwards unless a
  later tier holds the same key, and a key held by no tier keeps its value. Flushing a
  chain of empty tiers changes neither the chain nor the backend.
\<close>

theorem flush_cache_contract:
  assumes wf: "\<forall>cache \<in> set cache_chain. wf_provider cache"
  shows "fst (flush_cache cache_chain storage) = map (\<lambda>cache. cache\<lparr>mapper := []\<rparr>) cache_chain \<and>
    (\<forall>cache \<in> set (fst (flush_cache cache_chain storage)). mapper cache = [] \<and> used_space cache = 0) \<and>
    provider_get (snd (flush_cache cache_chain storage)) = provider_get storage ++ cached cache_chain \<and>
    (\<forall>i k v. i < length cache_chain \<and> provider_get (cache_chain ! i) k = Some v \<and>
        (\<forall>j. i < j \<and> j < length cache_chain \<longrightarrow> provider_get (cache_chain ! j) k = None) \<longrightarrow>
        provider_get (snd (flush_cache cache_chain storage)) k = Some v) \<and>
    (\<forall>k. (\<forall>cache \<in> set cache_chain. provider_get cache k = None) \<longrightarrow>
        provider_get (snd (flush_cache cache_chain storage)) k = provider_get storage k) \<and>
    ((\<forall>cache \<in> set cache_chain. mapper cache = []) \<longrightarrow>
        flush_cache cache_chain storage = (cache_chain, storage))"
proof (intro conjI allI impI ballI)
  show c: "fst (flush_cache cache_chain storage) = map (\<lambda>cache. cache\<lparr>mapper := []\<rparr>) cache_chain"
    by (rule flush_cache_chain)
  show s: "provider_get (snd (flush_cache cache_chain storage)) = provider_get storage ++ cached cache_chain"
    by (rule flush_cache_storage [OF wf])
  {
    fix cache assume "cache \<in> set (fst (flush_cache cache_chain storage))"
    then have m: "mapper cache = []" by (auto simp: c)
    show "mapper cache = []" by (rule m)
    show "used_space cache = 0" using m by simp
  }
  {
    fix i k v
    assume "i < length cache_chain \<and> provider_get (cache_chain ! i) k = Some v \<and>
        (\<forall>j. i < j \<and> j < length cache_chain \<longrightarrow> provider_get (cache_chain ! j) k = None)"
    then have "cached cache_chain k = Some v"
      by (intro cached_last_holder [of i]) simp_all
    then show "provider_get (snd (flush_cache cache_chain storage)) k = Some v"
      by (simp add: s map_add_def)
  }
  {
    fix k assume "\<forall>cache \<in> set cache_chain. provider_get cache k = None"
    then have "cached cache_chain k = None" by (rule cached_none)
    then show "provider_get (snd (flush_cache cache_chain storage)) k = provider_get storage k"
      by (simp add: s map_add_def)
  }
  {
    assume e: "\<forall>cache \<in> set cache_chain. mapper cache = []"
    then have "map (\<lambda>cache. cache\<lparr>mapper := []\<rparr>) cache_chain = cache_chain"
      by (induction cache_chain) simp_all
    then show "flush_cache cache_chain storage = (cache_chain, storage)"
      using c flush_cache_empty [OF e, of storage] by (simp add: prod_eq_iff)
  }
qed

theorem flush_cache_contract_witness:
  "wf_provider \<lparr>mapper = [(''k/c0'', ''ab''), (''k/c1'', ''cd'')], max_size = Some 4\<rparr> \<and>
   wf_provider \<lparr>mapper = [(''k/c2'', ''e'')], max_size = Some 2\<rparr> \<and>
   fst (flush_cache [\<lparr>mapper = [(''k/c0'', ''ab''), (''k/c1'', ''cd'')], max_size = Some 4\<rparr>,
                     \<lparr>mapper = [(''k/c2'', ''e'')], max_size = Some 2\<rparr>]
          \<lparr>mapper = [(''k/c0'', ''zz'')], max_size = None\<rparr>) =
     [\<lparr>mapper = [], max_size = Some 4\<rparr>, \<lparr>mapper = [], max_size = Some 2\<rparr>] \<and>
   provider_get (snd (flush_cache [\<lparr>mapper = [(''k/c0'', ''ab''), (''k/c1'', ''cd'')], max_size = Some 4\<rparr>,
                     \<lparr>mapper = [(''k/c2'', ''e'')], max_size = Some 2\<rparr>]
          \<lparr>mapper = [(''k/c0'', ''zz'')], max_size = None\<rparr>)) ''k/c0'' = Some ''ab''"
    (is "_ \<and> _ \<and> fst (flush_cache ?chain ?storage) = ?chain' \<and> _")
proof -
  have wf: "\<forall>cache \<in> set ?chain. wf_provider cache"
    by (simp add: wf_provider_def)
  note c = flush_cache_contract [OF wf, of ?storage]
  from c have "fst (flush_cache ?chain ?storage) = map (\<lambda>cache. cache\<lparr>mapper := []\<rparr>) ?chain"
    by (rule conjunct1)
  then have 1: "fst (flush_cache ?chain ?storage) = ?chain'"
    by simp
  from c have "provider_get (snd (flush_cache ?chain ?storage)) = provider_get ?storage ++ cached ?chain"
    by blast
  then have 2: "provider_get (snd (flush_cache ?chain ?storage)) ''k/c0'' = Some ''ab''"
    by (simp add: provider_get_def map_add_def)
  from wf 1 2 show ?thesis by simp
qed

section \<open>Properties of the chunk generator\<close>

lemma concat_chunks_of: "0 < c \<Longrightarrow> concat (chunks_of c b) = b"
proof (induction c b rule: chunks_of.induct)
  case (1 c b)
  then show ?case
    by (subst chunks_of.simps) auto
qed

lemma concat_generate_chunks: "0 < c \<Longrightarrow> concat (generate_chunks b c l) = b"
  by (auto simp: generate_chunks_def Let_def concat_chunks_of)

lemma concat_fill_or_append:
  "concat (fill_or_append c actual chunk) = concat actual @ chunk"
proof (cases "actual = []")
  case True
  then show ?thesis by (simp add: fill_or_append_def)
next
  case False
  then have "concat actual = concat (butlast actual) @ last actual"
    by (metis append_butlast_last_id concat.simps concat_append append_Nil2)
  then show ?thesis by (simp add: fill_or_append_def)
qed

lemma concat_foldl_fill_or_append:
  "concat (foldl (fill_or_append c) actual slices) = concat actual @ concat slices"
  by (induction slices arbitrary: actual) (simp_all add: concat_fill_or_append)

lemma fst_run_test_slices:
  "fst (foldl (run_test_slice c) st slices) = foldl (fill_or_append c) (fst st) slices"
  by (induction slices arbitrary: st) (simp_all add: run_test_slice_def)

lemma snd_run_test_slices:
  "snd (foldl (run_test_slice c) st slices) =
     (if slices = [] then snd st else Some (length (last slices)))"
  by (induction slices arbitrary: st) (simp_all add: run_test_slice_def)

lemma concat_run_test_objects:
  "0 < c \<Longrightarrow>
   concat (fst (foldl (run_test_object c) st bytes_batch)) = concat (fst st) @ concat bytes_batch"
proof (induction bytes_batch arbitrary: st)
  case Nil
  then show ?case by simp
next
  case (Cons b rest)
  have "concat (fst (run_test_object c st b)) = concat (fst st) @ b"
    using Cons.prems
    by (simp add: run_test_object_def fst_run_test_slices concat_foldl_fill_or_append
        concat_generate_chunks)
  with Cons show ?case by simp
qed

lemma concat_run_test: "0 < c \<Longrightarrow> concat (run_test c bytes_batch) = concat bytes_batch"
  by (simp add: run_test_def concat_run_test_objects)

lemma concat_yielded_slices:
  "0 < c \<Longrightarrow> concat (yielded_slices c l bytes_batch) = concat bytes_batch"
  by (induction bytes_batch arbitrary: l) (simp_all add: Let_def concat_generate_chunks)

lemma run_test_objects_yielded:
  "foldl (run_test_object c) st bytes_batch =
     (foldl (fill_or_append c) (fst st) (yielded_slices c (snd st) bytes_batch),
      if yielded_slices c (snd st) bytes_batch = [] then snd st
      else Some (length (last (yielded_slices c (snd st) bytes_batch))))"
proof (induction bytes_batch arbitrary: st)
  case Nil
  then show ?case by simp
next
  case (Cons b rest)
  let ?s = "generate_chunks b c (snd st)"
  have o: "run_test_object c st b =
      (foldl (fill_or_append c) (fst st) ?s, if ?s = [] then snd st else Some (length (last ?s)))"
    by (simp add: run_test_object_def prod_eq_iff fst_run_test_slices snd_run_test_slices)
  show ?case
    by (simp add: Cons o Let_def)
qed

lemma run_test_yielded:
  "run_test c bytes_batch = foldl (fill_or_append c) [] (yielded_slices c None bytes_batch)"
  by (simp add: run_test_def run_test_objects_yielded)


lemma chunked_Nil [simp]: "chunked c []"
  by (simp add: chunked_def)

lemma chunked_chunks_of: "0 < c \<Longrightarrow> chunked c (chunks_of c b)"
proof (induction c b rule: chunks_of.induct)
  case (1 c b)
  show ?case
  proof (cases "b = []")
    case True
    then show ?thesis by (subst chunks_of.simps) simp
  next
    case False
    note ne = this
    have ih: "chunked c (chunks_of c (drop c b))"
      using 1 ne by simp
    show ?thesis
    proof (cases "drop c b = []")
      case True
      then have "chunks_of c (drop c b) = []" by (subst chunks_of.simps) simp
      then have "chunks_of c b = [take c b]"
        using ne 1(2) by (subst chunks_of.simps) simp
      then show ?thesis using ne 1(2) by (simp add: chunked_def)
    next
      case False
      then have nn: "chunks_of c (drop c b) \<noteq> []"
        using 1(2) by (subst chunks_of.simps) simp
      have lt: "length (take c b) = c" using False by simp
      have "chunks_of c b = take c b # chunks_of c (drop c b)"
        using ne 1(2) by (subst chunks_of.simps) simp
      then show ?thesis using ih nn lt by (auto simp: chunked_def)
    qed
  qed
qed

lemma chunked_append_full:
  "0 < c \<Longrightarrow> \<forall>ch \<in> set xs. length ch = c \<Longrightarrow> chunked c ys \<Longrightarrow> chunked c (xs @ ys)"
  by (cases "ys = []") (auto simp: chunked_def butlast_append dest: in_set_butlastD)

lemma chunked_full_last:
  "chunked c xs \<Longrightarrow> xs \<noteq> [] \<Longrightarrow> length (last xs) = c \<Longrightarrow> \<forall>ch \<in> set xs. length ch = c"
  by (metis (no_types, lifting) append_butlast_last_id chunked_def insert_iff list.set(1,2)
      set_append Un_iff)

lemma foldl_fill_or_append_full:
  "actual = [] \<or> c \<le> length (last actual) \<Longrightarrow> 0 < c \<Longrightarrow>
   foldl (fill_or_append c) actual (chunks_of c r) = actual @ chunks_of c r"
proof (induction c r arbitrary: actual rule: chunks_of.induct)
  case (1 c r)
  show ?case
  proof (cases "r = []")
    case True
    then show ?thesis by (subst (1 2) chunks_of.simps) simp
  next
    case False
    have unf: "chunks_of c r = take c r # chunks_of c (drop c r)"
      using False 1(3) by (subst chunks_of.simps) simp
    have step: "fill_or_append c actual (take c r) = actual @ [take c r]"
      using 1(2) by (auto simp: fill_or_append_def)
    show ?thesis
    proof (cases "drop c r = []")
      case True
      then have "chunks_of c (drop c r) = []" by (subst chunks_of.simps) simp
      then show ?thesis by (simp add: unf step)
    next
      case d: False
      then have "length (take c r) = c" by simp
      then have "foldl (fill_or_append c) (actual @ [take c r]) (chunks_of c (drop c r)) =
          (actual @ [take c r]) @ chunks_of c (drop c r)"
        using False 1(3) by (intro 1(1)) simp_all
      then show ?thesis by (simp add: unf step)
    qed
  qed
qed


lemma fill_or_append_nonempty [simp]: "fill_or_append c actual chunk \<noteq> []"
  by (simp add: fill_or_append_def)

lemma foldl_fill_or_append_nonempty:
  "actual \<noteq> [] \<or> slices \<noteq> [] \<Longrightarrow> foldl (fill_or_append c) actual slices \<noteq> []"
  by (induction slices arbitrary: actual) auto

lemma fst_run_filled_slice [simp]:
  "fst (run_filled_slice c st x) = fill_or_append c (fst st) x"
  by (simp add: run_filled_slice_def Let_def)

lemma snd_run_filled_slice [simp]:
  "snd (run_filled_slice c st x) = Some (length (last (fill_or_append c (fst st) x)))"
  by (simp add: run_filled_slice_def Let_def)

lemma fst_run_filled_slices:
  "fst (foldl (run_filled_slice c) st slices) = foldl (fill_or_append c) (fst st) slices"
  by (induction slices arbitrary: st) simp_all

lemma snd_run_filled_slices:
  "snd (foldl (run_filled_slice c) st slices) =
     (if slices = [] then snd st
      else Some (length (last (foldl (fill_or_append c) (fst st) slices))))"
proof (induction slices arbitrary: st rule: rev_induct)
  case Nil
  then show ?case by simp
next
  case (snoc x xs)
  show ?case
    by (simp add: fst_run_filled_slices)
qed

lemma chunked_generate_chunks_step:
  assumes c: "0 < c" and ch: "chunked c actual"
    and l: "l = (if actual = [] then None else Some (length (last actual)))"
  shows "chunked c (foldl (fill_or_append c) actual (generate_chunks b c l))"
proof (cases "b = []")
  case True
  then show ?thesis using ch by (simp add: generate_chunks_def)
next
  case b: False
  show ?thesis
  proof (cases "actual = [] \<or> c \<le> length (last actual)")
    case True
    then have g: "generate_chunks b c l = chunks_of c b"
      using b l by (auto simp: generate_chunks_def)
    have full: "\<forall>x \<in> set actual. length x = c"
    proof (cases "actual = []")
      case True
      then show ?thesis by simp
    next
      case False
      with True ch have "length (last actual) = c" by (simp add: chunked_def)
      with ch False show ?thesis by (rule chunked_full_last)
    qed
    have "foldl (fill_or_append c) actual (chunks_of c b) = actual @ chunks_of c b"
      using True c by (rule foldl_fill_or_append_full)
    moreover have "chunked c (actual @ chunks_of c b)"
      using c full chunked_chunks_of [OF c] by (rule chunked_append_full)
    ultimately show ?thesis by (simp add: g)
  next
    case False
    then have ne: "actual \<noteq> []" and lt: "length (last actual) < c" by simp_all
    define k where "k = c - length (last actual)"
    have k: "0 < k" using lt by (simp add: k_def)
    have g: "generate_chunks b c l = take k b # chunks_of c (drop k b)"
      using b l ne lt k by (simp add: generate_chunks_def k_def Let_def)
    define actual1 where "actual1 = butlast actual @ [last actual @ take k b]"
    have step: "fill_or_append c actual (take k b) = actual1"
      using ne lt by (simp add: fill_or_append_def actual1_def)
    have bl: "\<forall>x \<in> set (butlast actual). length x = c"
      using ch by (simp add: chunked_def)
    show ?thesis
    proof (cases "drop k b = []")
      case True
      then have "chunks_of c (drop k b) = []" by (subst chunks_of.simps) simp
      moreover have "chunked c actual1"
        using bl b k lt by (auto simp: chunked_def actual1_def k_def)
      ultimately show ?thesis by (simp add: g step)
    next
      case d: False
      then have "length (take k b) = k" by simp
      then have ll: "length (last actual1) = c"
        using lt by (simp add: actual1_def k_def)
      have full: "\<forall>x \<in> set actual1. length x = c"
        using bl ll by (auto simp: actual1_def)
      have "foldl (fill_or_append c) actual1 (chunks_of c (drop k b)) =
          actual1 @ chunks_of c (drop k b)"
        using ll c by (intro foldl_fill_or_append_full) simp_all
      moreover have "chunked c (actual1 @ chunks_of c (drop k b))"
        using c full chunked_chunks_of [OF c] by (rule chunked_append_full)
      ultimately show ?thesis by (simp add: g step)
    qed
  qed
qed

lemma run_filled_object_inv:
  assumes c: "0 < c" and ch: "chunked c (fst st)" and th: "threaded st"
  shows "chunked c (fst (run_filled_object c st b)) \<and> threaded (run_filled_object c st b)"
proof
  show "chunked c (fst (run_filled_object c st b))"
    unfolding run_filled_object_def fst_run_filled_slices
    using c ch th [unfolded threaded_def] by (rule chunked_generate_chunks_step)
  show "threaded (run_filled_object c st b)"
  proof (cases "generate_chunks b c (snd st) = []")
    case True
    then show ?thesis using th by (simp add: run_filled_object_def)
  next
    case False
    then have "foldl (fill_or_append c) (fst st) (generate_chunks b c (snd st)) \<noteq> []"
      by (intro foldl_fill_or_append_nonempty) simp
    with False show ?thesis
      by (simp add: threaded_def run_filled_object_def fst_run_filled_slices snd_run_filled_slices)
  qed
qed

lemma run_filled_objects_inv:
  "0 < c \<Longrightarrow> chunked c (fst st) \<Longrightarrow> threaded st \<Longrightarrow>
   chunked c (fst (foldl (run_filled_object c) st bytes_batch))"
proof (induction bytes_batch arbitrary: st)
  case Nil
  then show ?case by simp
next
  case (Cons b rest)
  from run_filled_object_inv [OF Cons.prems, of b] Cons.IH [OF Cons.prems(1)]
  show ?case by simp
qed

lemma chunked_run_filled: "0 < c \<Longrightarrow> chunked c (run_filled c bytes_batch)"
  unfolding run_filled_def
  by (rule run_filled_objects_inv) (simp_all add: threaded_def)

lemma concat_run_filled_objects:
  "0 < c \<Longrightarrow>
   concat (fst (foldl (run_filled_object c) st bytes_batch)) = concat (fst st) @ concat bytes_batch"
proof (induction bytes_batch arbitrary: st)
  case Nil
  then show ?case by simp
next
  case (Cons b rest)
  have "concat (fst (run_filled_object c st b)) = concat (fst st) @ b"
    using Cons.prems
    by (simp add: run_filled_object_def fst_run_filled_slices concat_foldl_fill_or_append
        concat_generate_chunks)
  with Cons show ?case by simp
qed

lemma concat_run_filled: "0 < c \<Longrightarrow> concat (run_filled c bytes_batch) = concat bytes_batch"
  by (simp add: run_filled_def concat_run_filled_objects)

text \<open>
  Claim C2, as amended. For every chunk size \<open>c \<ge> 1\<close> and every sequence of buffers, the
  slices yielded over the successive calls, with \<open>last_chunk_num_bytes\<close> the length of the
  slice yielded last, concatenate to the concatenation of the buffers, and so do the
  chunks that the test driver merges from them. Every merged chunk but the last holds
  exactly \<open>c\<close> bytes when \<open>last_chunk_num_bytes\<close> is instead the number of bytes held by the
  last merged chunk, and so does every slice but the last of a single call that continues
  no chunk. Empty input yields nothing.
\<close>

theorem generate_chunks_reconstruction:
  assumes "1 \<le> c"
  shows "concat (yielded_slices c None bytes_batch) = concat bytes_batch \<and>
    run_test c bytes_batch = foldl (fill_or_append c) [] (yielded_slices c None bytes_batch) \<and>
    concat (run_test c bytes_batch) = concat bytes_batch \<and>
    concat (run_filled c bytes_batch) = concat bytes_batch \<and>
    (\<forall>ch \<in> set (butlast (run_filled c bytes_batch)). length ch = c) \<and>
    (run_filled c bytes_batch \<noteq> [] \<longrightarrow>
       0 < length (last (run_filled c bytes_batch)) \<and> length (last (run_filled c bytes_batch)) \<le> c) \<and>
    chunked c (generate_chunks b c None) \<and>
    generate_chunks [] c last_chunk_num_bytes = []"
proof -
  have c: "0 < c" using assms by simp
  have "chunked c (run_filled c bytes_batch)"
    using c by (rule chunked_run_filled)
  moreover have "chunked c (generate_chunks b c None)"
  proof (cases "b = []")
    case True
    then show ?thesis by (simp add: generate_chunks_def)
  next
    case False
    then have "generate_chunks b c None = chunks_of c b"
      by (simp add: generate_chunks_def)
    then show ?thesis using chunked_chunks_of [OF c] by simp
  qed
  moreover have "generate_chunks [] c last_chunk_num_bytes = []"
    by (simp add: generate_chunks_def)
  ultimately show ?thesis
    using c
    by (simp add: concat_yielded_slices run_test_yielded [symmetric] concat_run_test
        concat_run_filled chunked_def)
qed

theorem generate_chunks_reconstruction_witness:
  "(1::nat) \<le> 4 \<and>
   yielded_slices 4 None [''1234567'', ''89''] = [''1234'', ''567'', ''8'', ''9''] \<and>
   concat (run_test 4 [''1234567'', ''89'']) = ''123456789'' \<and>
   run_filled 4 [''12'', ''3'', ''456789''] = [''1234'', ''5678'', ''9''] \<and>
   concat (run_filled 4 [''12'', ''3'', ''456789'']) = concat [''12'', ''3'', ''456789'']"
proof -
  have h: "(1::nat) \<le> 4" by simp
  have 1: "concat (run_test 4 [''1234567'', ''89'']) = concat [''1234567'', ''89'']"
    using generate_chunks_reconstruction [OF h, of "[''1234567'', ''89'']"] by blast
  have 2: "concat (run_filled 4 [''12'', ''3'', ''456789'']) = concat [''12'', ''3'', ''456789'']"
    using generate_chunks_reconstruction [OF h, of "[''12'', ''3'', ''456789'']"] by blast
  have 3: "yielded_slices 4 None [''1234567'', ''89''] = [''1234'', ''567'', ''8'', ''9'']"
    by code_simp
  have 4: "run_filled 4 [''12'', ''3'', ''456789''] = [''1234'', ''5678'', ''9'']"
    by code_simp
  from h 1 2 3 4 show ?thesis by simp
qed

text \<open>
  With \<open>last_chunk_num_bytes\<close> the length of the slice yielded last, as claim C2 states it,
  a merged chunk that is not the last one can hold more than \<open>c\<close> bytes: the slice
  \<open>''3''\<close> leaves the chunk \<open>''123''\<close> behind, and the next call fills it with three bytes.
\<close>

theorem generate_chunks_slice_threading_counterexample:
  "yielded_slices 4 None [''12'', ''3'', ''456789''] = [''12'', ''3'', ''456'', ''789''] \<and>
   run_test 4 [''12'', ''3'', ''456789''] = [''123456'', ''789''] \<and>
   length (hd (butlast (run_test 4 [''12'', ''3'', ''456789'']))) = 6"
  by code_simp

text \<open>The model yields what \<^verbatim>\<open>tests/test_generate_chunks.py\<close> expects.\<close>

lemma run_test_perfect_fit:
  "run_test 1 [''1''] = [''1'']"
  "run_test 1 [''1'', ''2''] = [''1'', ''2'']"
  "run_test 1 [''1'', ''2'', ''3''] = [''1'', ''2'', ''3'']"
  "run_test 1 [''1234''] = [''1'', ''2'', ''3'', ''4'']"
  "run_test 4 [''1234''] = [''1234'']"
  "run_test 4 [''1234'', ''5678''] = [''1234'', ''5678'']"
  "run_test 4 [''12345678''] = [''1234'', ''5678'']"
  "run_test 10 [''12'', ''3456'', ''78'', ''9'', ''0''] = [''1234567890'']"
  by code_simp+

lemma run_test_partial_fit:
  "run_test 1 [[]] = []"
  "run_test 2 [''1''] = [''1'']"
  "run_test 2 [''123''] = [''12'', ''3'']"
  "run_test 4 [''123''] = [''123'']"
  "run_test 4 [''1234567''] = [''1234'', ''567'']"
  "run_test 8 [''1'', ''2'', ''3'', ''4'', ''5'', ''6'', ''7''] = [''1234567'']"
  by code_simp+

section \<open>Properties of the keys\<close>

declare string_of_nat.simps [simp del]

lemma string_of_nat_nonempty [simp]: "string_of_nat n \<noteq> []"
  by (subst string_of_nat.simps) simp

lemma length_string_of_nat_small: "n < 10 \<Longrightarrow> length (string_of_nat n) = 1"
  by (subst string_of_nat.simps) simp

lemma length_string_of_nat_large: "\<not> n < 10 \<Longrightarrow> 2 \<le> length (string_of_nat n)"
proof -
  assume n: "\<not> n < 10"
  have "string_of_nat (n div 10) \<noteq> []" by simp
  then have "1 \<le> length (string_of_nat (n div 10))"
    by (simp add: Suc_le_eq)
  with n show ?thesis by (subst string_of_nat.simps) simp
qed

lemma digit_char_inj:
  "a < 10 \<Longrightarrow> b < 10 \<Longrightarrow> (char_of (48 + a) :: char) = char_of (48 + b) \<Longrightarrow> a = (b::nat)"
proof -
  assume a: "a < 10" and b: "b < 10" and e: "(char_of (48 + a) :: char) = char_of (48 + b)"
  from e have "of_char (char_of (48 + a) :: char) = (of_char (char_of (48 + b) :: char) :: nat)"
    by simp
  then have "(48 + a) mod 256 = (48 + b) mod 256"
    by (simp only: of_char_of)
  with a b show ?thesis by simp
qed

lemma string_of_nat_inj: "string_of_nat n = string_of_nat m \<Longrightarrow> n = m"
proof (induction n arbitrary: m rule: string_of_nat.induct)
  case (1 n)
  show ?case
  proof (cases "n < 10")
    case True
    then have sn: "string_of_nat n = [char_of (48 + n)]"
      by (subst string_of_nat.simps) simp
    show ?thesis
    proof (cases "m < 10")
      case m: True
      then have "string_of_nat m = [char_of (48 + m)]"
        by (subst string_of_nat.simps) simp
      with sn 1(2) True m show ?thesis by (auto dest: digit_char_inj)
    next
      case False
      from length_string_of_nat_large [OF False] length_string_of_nat_small [OF True] 1(2)
      show ?thesis by simp
    qed
  next
    case False
    then have sn: "string_of_nat n = string_of_nat (n div 10) @ [char_of (48 + n mod 10)]"
      by (subst string_of_nat.simps) simp
    show ?thesis
    proof (cases "m < 10")
      case True
      from length_string_of_nat_large [OF False] length_string_of_nat_small [OF True] 1(2)
      show ?thesis by simp
    next
      case m: False
      then have sm: "string_of_nat m = string_of_nat (m div 10) @ [char_of (48 + m mod 10)]"
        by (subst string_of_nat.simps) simp
      from sn sm 1(2) have e1: "string_of_nat (n div 10) = string_of_nat (m div 10)"
        and e2: "(char_of (48 + n mod 10) :: char) = char_of (48 + m mod 10)"
        by simp_all
      from 1(1) [OF False e1] have "n div 10 = m div 10" .
      moreover from e2 have "n mod 10 = m mod 10"
        by (intro digit_char_inj) simp_all
      ultimately show ?thesis
        by (metis div_mult_mod_eq)
    qed
  qed
qed

lemma path_join_relative:
  "\<exists>p. \<forall>b. b \<noteq> [] \<and> hd b \<noteq> CHR ''/'' \<longrightarrow> path_join a b = p @ b"
proof (cases "a = [] \<or> last a = CHR ''/''")
  case True
  then have "\<forall>b. b \<noteq> [] \<and> hd b \<noteq> CHR ''/'' \<longrightarrow> path_join a b = a @ b"
    by (simp add: path_join_def)
  then show ?thesis by blast
next
  case False
  then have "\<forall>b. b \<noteq> [] \<and> hd b \<noteq> CHR ''/'' \<longrightarrow> path_join a b = (a @ ''/'') @ b"
    by (simp add: path_join_def)
  then show ?thesis by blast
qed

lemma path_join_inj:
  assumes "b \<noteq> []" "hd b \<noteq> CHR ''/''" "b' \<noteq> []" "hd b' \<noteq> CHR ''/''"
    and e: "path_join a b = path_join a b'"
  shows "b = b'"
proof -
  obtain p where p: "\<forall>b. b \<noteq> [] \<and> hd b \<noteq> CHR ''/'' \<longrightarrow> path_join a b = p @ b"
    using path_join_relative by blast
  from p assms(1,2) have 1: "path_join a b = p @ b" by blast
  from p assms(3,4) have 2: "path_join a b' = p @ b'" by blast
  from e have "p @ b = p @ b'" unfolding 1 2 .
  then show ?thesis by simp
qed

lemma chunk_key_of_inj [simp]: "chunk_key_of key i = chunk_key_of key j \<longleftrightarrow> i = j"
proof
  assume e: "chunk_key_of key i = chunk_key_of key j"
  have "CHR ''c'' # string_of_nat i = CHR ''c'' # string_of_nat j"
  proof (rule path_join_inj [of _ _ key])
    show "path_join key (CHR ''c'' # string_of_nat i) = path_join key (CHR ''c'' # string_of_nat j)"
      using e by (simp add: chunk_key_of_def)
  qed simp_all
  then show "i = j" by (simp add: string_of_nat_inj)
qed simp

lemma chunk_key_not_index_map [simp]: "chunk_key_of key i \<noteq> index_map_key_of key"
proof
  assume e: "chunk_key_of key i = index_map_key_of key"
  have "CHR ''c'' # string_of_nat i = ''index_map''"
  proof (rule path_join_inj [of _ _ key])
    show "path_join key (CHR ''c'' # string_of_nat i) = path_join key ''index_map''"
      using e by (simp add: chunk_key_of_def index_map_key_of_def)
  qed simp_all
  then show False by simp
qed

section \<open>Properties of the sample writer\<close>

lemma wf_provider_set [simp]: "wf_provider p \<Longrightarrow> wf_provider (provider_set p k v)"
  by (simp add: wf_provider_def provider_set_def distinct_update)

lemma keys_provider_set [simp]:
  "fst ` set (mapper (provider_set p k v)) = insert k (fst ` set (mapper p))"
  by (simp add: provider_set_def dom_update)

lemma provider_get_None_iff: "provider_get p k = None \<longleftrightarrow> k \<notin> fst ` set (mapper p)"
  by (simp add: provider_get_def map_of_eq_None_iff)

lemma cached_fresh: "k \<notin> tier_keys cache_chain \<Longrightarrow> cached cache_chain k = None"
  by (rule cached_none) (auto simp: tier_keys_def provider_get_None_iff)

lemma tier_keys_Cons [simp]:
  "tier_keys (cache # rest) = fst ` set (mapper cache) \<union> tier_keys rest"
  by (simp add: tier_keys_def)

lemma tier_keys_Nil [simp]: "tier_keys [] = {}"
  by (simp add: tier_keys_def)

lemma write_to_cache_fail:
  "write_to_cache key b cache_chain = (False, chain') \<Longrightarrow> chain' = cache_chain"
  by (induction cache_chain arbitrary: chain') (auto split: if_splits prod.splits)

lemma write_to_cache_success:
  "write_to_cache key b cache_chain = (True, chain') \<Longrightarrow> key \<notin> tier_keys cache_chain \<Longrightarrow>
   cached chain' = (cached cache_chain)(key \<mapsto> b) \<and>
   tier_keys chain' = insert key (tier_keys cache_chain) \<and>
   map max_size chain' = map max_size cache_chain \<and>
   ((\<forall>cache \<in> set cache_chain. wf_provider cache) \<longrightarrow> (\<forall>cache \<in> set chain'. wf_provider cache))"
proof (induction cache_chain arbitrary: chain')
  case Nil
  then show ?case by simp
next
  case (Cons cache rest)
  show ?case
  proof (cases "has_space cache (length b)")
    case True
    then have c: "chain' = provider_set cache key b # rest"
      using Cons.prems(1) by simp
    have "cached rest key = None"
      using Cons.prems(2) by (intro cached_fresh) simp
    then have "provider_get (provider_set cache key b) ++ cached rest =
        (provider_get cache ++ cached rest)(key \<mapsto> b)"
      by (auto simp: fun_eq_iff map_add_def split: option.splits)
    then show ?thesis by (simp add: c)
  next
    case False
    then obtain rest' where r: "write_to_cache key b rest = (True, rest')"
      and c: "chain' = cache # rest'"
      using Cons.prems(1) by (auto split: prod.splits)
    have "key \<notin> tier_keys rest" using Cons.prems(2) by simp
    note ih = Cons.IH [OF r this]
    from ih have 1: "cached rest' = (cached rest)(key \<mapsto> b)" by (rule conjunct1)
    from ih have 2: "tier_keys rest' = insert key (tier_keys rest)" by blast
    from ih have 3: "map max_size rest' = map max_size rest" by blast
    from ih have 4: "(\<forall>cache \<in> set rest. wf_provider cache) \<longrightarrow> (\<forall>cache \<in> set rest'. wf_provider cache)"
      by blast
    from 4 have 5: "(\<forall>x \<in> set (cache # rest). wf_provider x) \<longrightarrow> (\<forall>x \<in> set chain'. wf_provider x)"
      by (simp add: c)
    show ?thesis
      using 5 by (simp add: c 1 2 3 map_add_upd del: set_simps ball_simps)
  qed
qed

lemma has_space_fits: "has_space cache n \<Longrightarrow> fits cache n"
  by (auto simp: has_space_def fits_def split: option.splits)

lemma has_space_empty: "mapper cache = [] \<Longrightarrow> has_space cache n = fits cache n"
  by (simp add: has_space_def fits_def used_space_def split: option.splits)

lemma write_to_cache_no_fit:
  "\<forall>cache \<in> set cache_chain. \<not> fits cache (length b) \<Longrightarrow>
   write_to_cache key b cache_chain = (False, cache_chain)"
  by (rule write_to_cache_none) (auto dest: has_space_fits)

lemma write_to_cache_empty_fit:
  "\<forall>cache \<in> set cache_chain. mapper cache = [] \<Longrightarrow>
   \<exists>cache \<in> set cache_chain. fits cache (length b) \<Longrightarrow>
   fst (write_to_cache key b cache_chain)"
  by (induction cache_chain) (auto simp: has_space_empty split_def)

lemma fits_emptied [simp]: "fits (cache\<lparr>mapper := []\<rparr>) n = fits cache n"
  by (simp add: fits_def)

lemma flush_cache_result:
  "flush_cache cache_chain storage =
     (map (\<lambda>cache. cache\<lparr>mapper := []\<rparr>) cache_chain, snd (flush_cache cache_chain storage))"
  using flush_cache_chain [of cache_chain storage] by (simp add: prod_eq_iff)

lemma visible_flush:
  "\<forall>cache \<in> set cache_chain. wf_provider cache \<Longrightarrow>
   provider_get (snd (flush_cache cache_chain storage)) = visible cache_chain storage"
  by (simp add: visible_def flush_cache_storage)

lemma cached_emptied [simp]: "cached (map (\<lambda>cache. cache\<lparr>mapper := []\<rparr>) cache_chain) = Map.empty"
  by (induction cache_chain) (simp_all add: provider_get_def [abs_def])

lemma tier_keys_emptied [simp]: "tier_keys (map (\<lambda>cache. cache\<lparr>mapper := []\<rparr>) cache_chain) = {}"
  by (simp add: tier_keys_def)

lemma wf_emptied [simp]: "wf_provider (cache\<lparr>mapper := []\<rparr>)"
  by (simp add: wf_provider_def)


lemma visible_set_storage:
  "visible [] (write_to_storage key b storage) = (visible [] storage)(key \<mapsto> b)"
  by (auto simp: visible_def write_to_storage_def fun_eq_iff)

lemma write_bytes_with_caching_unfold:
  "write_bytes_with_caching key b cache_chain storage =
     (if cache_chain = [] then (Inr (), cache_chain, write_to_storage key b storage)
      else if fst (write_to_cache key b cache_chain)
        then (Inr (), snd (write_to_cache key b cache_chain), storage)
      else if fst (write_to_cache key b (map (\<lambda>cache. cache\<lparr>mapper := []\<rparr>) cache_chain))
        then (Inr (), snd (write_to_cache key b (map (\<lambda>cache. cache\<lparr>mapper := []\<rparr>) cache_chain)),
              snd (flush_cache cache_chain storage))
      else (Inl CachingFailed, map (\<lambda>cache. cache\<lparr>mapper := []\<rparr>) cache_chain,
            snd (flush_cache cache_chain storage)))"
proof -
  obtain ok chain1 where w1: "write_to_cache key b cache_chain = (ok, chain1)"
    by (cases "write_to_cache key b cache_chain")
  obtain chain2 storage2 where fl: "flush_cache cache_chain storage = (chain2, storage2)"
    by (cases "flush_cache cache_chain storage")
  have c2: "chain2 = map (\<lambda>cache. cache\<lparr>mapper := []\<rparr>) cache_chain"
    using flush_cache_chain [of cache_chain storage] fl by simp
  obtain ok2 chain3 where w2: "write_to_cache key b chain2 = (ok2, chain3)"
    by (cases "write_to_cache key b chain2")
  have c1: "\<not> ok \<Longrightarrow> chain1 = cache_chain"
    using w1 by (auto dest: write_to_cache_fail)
  have c3: "\<not> ok2 \<Longrightarrow> chain3 = chain2"
    using w2 by (auto dest: write_to_cache_fail)
  show ?thesis
    using c1 c3 w2
    by (cases ok; cases ok2) (simp_all add: write_bytes_with_caching_def w1 fl c2 [symmetric])
qed

lemma write_bytes_with_caching_success:
  assumes w: "write_bytes_with_caching key b cache_chain storage = (Inr u, chain', storage')"
    and wf: "\<forall>cache \<in> set cache_chain. wf_provider cache"
    and fresh: "key \<notin> tier_keys cache_chain"
  shows "visible chain' storage' = (visible cache_chain storage)(key \<mapsto> b) \<and>
    (\<forall>cache \<in> set chain'. wf_provider cache) \<and>
    tier_keys chain' \<subseteq> insert key (tier_keys cache_chain) \<and>
    map max_size chain' = map max_size cache_chain"
proof (cases "cache_chain = []")
  case True
  with w have "chain' = []" and "storage' = write_to_storage key b storage"
    by (simp_all add: write_bytes_with_caching_unfold)
  then show ?thesis using True by (simp add: visible_set_storage)
next
  case ne: False
  show ?thesis
  proof (cases "fst (write_to_cache key b cache_chain)")
    case True
    with w ne have e: "chain' = snd (write_to_cache key b cache_chain)" "storage' = storage"
      by (simp_all add: write_bytes_with_caching_unfold)
    from True e have "write_to_cache key b cache_chain = (True, chain')"
      by (simp add: prod_eq_iff)
    from write_to_cache_success [OF this fresh] wf
    show ?thesis by (simp add: e(2) visible_def map_add_upd)
  next
    case False
    let ?chain2 = "map (\<lambda>cache. cache\<lparr>mapper := []\<rparr>) cache_chain"
    let ?storage2 = "snd (flush_cache cache_chain storage)"
    have ok2: "fst (write_to_cache key b ?chain2)"
    proof (rule ccontr)
      assume "\<not> fst (write_to_cache key b ?chain2)"
      with w False ne show False
        by (simp add: write_bytes_with_caching_unfold)
    qed
    with w False ne have e: "chain' = snd (write_to_cache key b ?chain2)" "storage' = ?storage2"
      by (simp_all add: write_bytes_with_caching_unfold)
    from ok2 e have "write_to_cache key b ?chain2 = (True, chain')"
      by (simp add: prod_eq_iff)
    from write_to_cache_success [OF this] have
      3: "cached chain' = [key \<mapsto> b]" "tier_keys chain' = {key}"
        "map max_size chain' = map max_size ?chain2" "\<forall>cache \<in> set chain'. wf_provider cache"
      by simp_all
    have "visible chain' ?storage2 = (visible cache_chain storage)(key \<mapsto> b)"
      by (simp add: visible_def [of chain'] 3 visible_flush [OF wf])
    moreover have "map max_size ?chain2 = map max_size cache_chain"
      by (simp add: comp_def)
    ultimately show ?thesis using 3 by (simp add: e(2))
  qed
qed

lemma write_bytes_with_caching_fail:
  assumes "\<not> fits_some cache_chain (length b)"
  shows "write_bytes_with_caching key b cache_chain storage =
    (Inl CachingFailed, map (\<lambda>cache. cache\<lparr>mapper := []\<rparr>) cache_chain,
     snd (flush_cache cache_chain storage))"
proof -
  from assms have ne: "cache_chain \<noteq> []" and nf: "\<forall>cache \<in> set cache_chain. \<not> fits cache (length b)"
    by (simp_all add: fits_some_def)
  have 1: "write_to_cache key b cache_chain = (False, cache_chain)"
    using nf by (rule write_to_cache_no_fit)
  let ?chain2 = "map (\<lambda>cache. cache\<lparr>mapper := []\<rparr>) cache_chain"
  have 2: "write_to_cache key b ?chain2 = (False, ?chain2)"
    using nf by (intro write_to_cache_no_fit) simp
  show ?thesis
    using ne by (simp add: write_bytes_with_caching_unfold 1 2)
qed

lemma write_bytes_with_caching_total:
  assumes "fits_some cache_chain (length b)"
  shows "\<exists>chain' storage'.
    write_bytes_with_caching key b cache_chain storage = (Inr (), chain', storage')"
proof (cases "cache_chain = []")
  case True
  then show ?thesis by (simp add: write_bytes_with_caching_unfold)
next
  case ne: False
  with assms have ex: "\<exists>cache \<in> set cache_chain. fits cache (length b)"
    by (simp add: fits_some_def)
  have "fst (write_to_cache key b (map (\<lambda>cache. cache\<lparr>mapper := []\<rparr>) cache_chain))"
    using ex by (intro write_to_cache_empty_fit) auto
  then show ?thesis
    using ne by (simp add: write_bytes_with_caching_unfold)
qed


lemma write_to_cache_max_size:
  "map max_size (snd (write_to_cache key b cache_chain)) = map max_size cache_chain"
  by (induction cache_chain) (simp_all add: split_def)

lemma write_bytes_with_caching_max_size:
  "map max_size (fst (snd (write_bytes_with_caching key b cache_chain storage))) =
     map max_size cache_chain"
  by (simp add: write_bytes_with_caching_unfold write_to_cache_max_size comp_def)

lemma fits_some_max_size:
  assumes e: "map max_size chain' = map max_size cache_chain"
  shows "fits_some chain' n = fits_some cache_chain n"
proof -
  define P where "P ms = (ms = [] \<or> (\<exists>m \<in> set ms. case m of None \<Rightarrow> True | Some m \<Rightarrow> n \<le> m))"
    for ms :: "nat option list"
  have h: "fits_some chain n = P (map max_size chain)" for chain
    by (auto simp: fits_some_def fits_def P_def)
  show ?thesis
    unfolding h e ..
qed

lemma write_chunks_success:
  assumes "write_chunks key compressor i bound chunks cache_chain storage = (Inr r, chain', storage')"
    and "\<forall>cache \<in> set cache_chain. wf_provider cache"
    and "\<forall>j \<ge> i. chunk_key_of key j \<notin> tier_keys cache_chain"
  shows "r = (if chunks = [] then bound else Some (i + length chunks - 1)) \<and>
    (\<forall>cache \<in> set chain'. wf_provider cache) \<and>
    (\<forall>j < length chunks.
       visible chain' storage' (chunk_key_of key (i + j)) = Some (compressor (chunks ! j))) \<and>
    (\<forall>k. (\<forall>j < length chunks. k \<noteq> chunk_key_of key (i + j)) \<longrightarrow>
       visible chain' storage' k = visible cache_chain storage k)"
  using assms
proof (induction chunks arbitrary: i bound cache_chain storage)
  case Nil
  then show ?case by simp
next
  case (Cons chunk rest)
  obtain res chain1 storage1 where
    w: "write_bytes_with_caching (chunk_key_of key i) (compressor chunk) cache_chain storage =
        (res, chain1, storage1)"
    by (metis prod_cases3)
  from Cons.prems(1) w obtain u where res: "res = Inr u"
    and rec: "write_chunks key compressor (Suc i) (Some i) rest chain1 storage1 = (Inr r, chain', storage')"
    by (cases res) (simp_all add: Let_def)
  have fresh: "chunk_key_of key i \<notin> tier_keys cache_chain"
    using Cons.prems(3) by simp
  note s = write_bytes_with_caching_success [OF w [unfolded res] Cons.prems(2) fresh]
  from s have v1: "visible chain1 storage1 =
      (visible cache_chain storage)(chunk_key_of key i \<mapsto> compressor chunk)"
    by (rule conjunct1)
  from s have wf1: "\<forall>cache \<in> set chain1. wf_provider cache" by blast
  from s have tk: "tier_keys chain1 \<subseteq> insert (chunk_key_of key i) (tier_keys cache_chain)"
    by blast
  have fresh1: "\<forall>j \<ge> Suc i. chunk_key_of key j \<notin> tier_keys chain1"
  proof (intro allI impI)
    fix j assume j: "Suc i \<le> j"
    then have "chunk_key_of key j \<noteq> chunk_key_of key i" by simp
    moreover have "chunk_key_of key j \<notin> tier_keys cache_chain"
      using Cons.prems(3) j by simp
    ultimately show "chunk_key_of key j \<notin> tier_keys chain1" using tk by blast
  qed
  note ih = Cons.IH [OF rec wf1 fresh1]
  from ih have r: "r = (if rest = [] then Some i else Some (Suc i + length rest - 1))"
    by (rule conjunct1)
  from ih have wf': "\<forall>cache \<in> set chain'. wf_provider cache" by blast
  from ih have in': "\<forall>j < length rest.
       visible chain' storage' (chunk_key_of key (Suc i + j)) = Some (compressor (rest ! j))"
    by blast
  from ih have out': "\<forall>k. (\<forall>j < length rest. k \<noteq> chunk_key_of key (Suc i + j)) \<longrightarrow>
       visible chain' storage' k = visible chain1 storage1 k"
    by blast
  have a: "r = (if chunk # rest = [] then bound else Some (i + length (chunk # rest) - 1))"
    using r by simp
  have b: "\<forall>j < length (chunk # rest).
       visible chain' storage' (chunk_key_of key (i + j)) = Some (compressor ((chunk # rest) ! j))"
  proof (intro allI impI)
    fix j assume j: "j < length (chunk # rest)"
    show "visible chain' storage' (chunk_key_of key (i + j)) = Some (compressor ((chunk # rest) ! j))"
    proof (cases j)
      case 0
      have "visible chain' storage' (chunk_key_of key i) = visible chain1 storage1 (chunk_key_of key i)"
        using out' by simp
      then show ?thesis using 0 v1 by simp
    next
      case (Suc j')
      then show ?thesis using in' j by simp
    qed
  qed
  have c: "\<forall>k. (\<forall>j < length (chunk # rest). k \<noteq> chunk_key_of key (i + j)) \<longrightarrow>
       visible chain' storage' k = visible cache_chain storage k"
  proof (intro allI impI)
    fix k assume k: "\<forall>j < length (chunk # rest). k \<noteq> chunk_key_of key (i + j)"
    then have k0: "k \<noteq> chunk_key_of key i" by force
    have "\<forall>j < length rest. k \<noteq> chunk_key_of key (Suc i + j)"
    proof (intro allI impI)
      fix j assume "j < length rest"
      then have "Suc j < length (chunk # rest)" by simp
      with k have "k \<noteq> chunk_key_of key (i + Suc j)" by blast
      then show "k \<noteq> chunk_key_of key (Suc i + j)" by simp
    qed
    with out' have "visible chain' storage' k = visible chain1 storage1 k" by blast
    then show "visible chain' storage' k = visible cache_chain storage k"
      using v1 k0 by simp
  qed
  from a wf' b c show ?case by blast
qed


lemma write_chunks_total:
  "\<forall>chunk \<in> set chunks. fits_some cache_chain (length (compressor chunk)) \<Longrightarrow>
   \<exists>r chain' storage'.
     write_chunks key compressor i bound chunks cache_chain storage = (Inr r, chain', storage')"
proof (induction chunks arbitrary: i bound cache_chain storage)
  case Nil
  then show ?case by simp
next
  case (Cons chunk rest)
  have "fits_some cache_chain (length (compressor chunk))"
    using Cons.prems by simp
  then obtain chain1 storage1 where
    w: "write_bytes_with_caching (chunk_key_of key i) (compressor chunk) cache_chain storage =
        (Inr (), chain1, storage1)"
    using write_bytes_with_caching_total by blast
  have ms: "map max_size chain1 = map max_size cache_chain"
    using write_bytes_with_caching_max_size
      [of "chunk_key_of key i" "compressor chunk" cache_chain storage] w by simp
  have "\<forall>chunk \<in> set rest. fits_some chain1 (length (compressor chunk))"
    using Cons.prems by (simp add: fits_some_max_size [OF ms])
  from Cons.IH [OF this, of "Suc i" "Some i" storage1]
  obtain r chain' storage' where
    rec: "write_chunks key compressor (Suc i) (Some i) rest chain1 storage1 = (Inr r, chain', storage')"
    by blast
  have "write_chunks key compressor i bound (chunk # rest) cache_chain storage = (Inr r, chain', storage')"
    by (simp add: Let_def w rec)
  then show ?case by blast
qed

lemma write_chunks_fail:
  assumes "\<forall>cache \<in> set cache_chain. wf_provider cache"
    and "\<forall>j \<ge> i. chunk_key_of key j \<notin> tier_keys cache_chain"
    and "n < length chunks"
    and "\<forall>j < n. fits_some cache_chain (length (compressor (chunks ! j)))"
    and "\<not> fits_some cache_chain (length (compressor (chunks ! n)))"
  shows "\<exists>chain' storage'.
    write_chunks key compressor i bound chunks cache_chain storage =
      (Inl CachingFailed, chain', storage') \<and>
    (\<forall>cache \<in> set chain'. mapper cache = []) \<and>
    map max_size chain' = map max_size cache_chain \<and>
    (\<forall>j < n. provider_get storage' (chunk_key_of key (i + j)) = Some (compressor (chunks ! j))) \<and>
    (\<forall>k. (\<forall>j < n. k \<noteq> chunk_key_of key (i + j)) \<longrightarrow>
       provider_get storage' k = visible cache_chain storage k)"
  using assms
proof (induction chunks arbitrary: n i bound cache_chain storage)
  case Nil
  then show ?case by simp
next
  case (Cons chunk rest)
  show ?case
  proof (cases n)
    case 0
    then have nf: "\<not> fits_some cache_chain (length (compressor chunk))"
      using Cons.prems(5) by simp
    let ?chain' = "map (\<lambda>cache. cache\<lparr>mapper := []\<rparr>) cache_chain"
    let ?storage' = "snd (flush_cache cache_chain storage)"
    have 1: "write_chunks key compressor i bound (chunk # rest) cache_chain storage =
        (Inl CachingFailed, ?chain', ?storage')"
      by (simp add: Let_def write_bytes_with_caching_fail [OF nf])
    have 2: "\<forall>cache \<in> set ?chain'. mapper cache = []" by simp
    have 3: "map max_size ?chain' = map max_size cache_chain" by (simp add: comp_def)
    have 4: "provider_get ?storage' = visible cache_chain storage"
      using Cons.prems(1) by (rule visible_flush)
    have 5: "\<forall>j < n. provider_get ?storage' (chunk_key_of key (i + j)) =
        Some (compressor ((chunk # rest) ! j))"
      using 0 by simp
    have 6: "\<forall>k. (\<forall>j < n. k \<noteq> chunk_key_of key (i + j)) \<longrightarrow>
        provider_get ?storage' k = visible cache_chain storage k"
      by (simp add: 4)
    from 1 2 3 5 6 show ?thesis by blast
  next
    case (Suc n')
    have "fits_some cache_chain (length (compressor chunk))"
      using Cons.prems(4) Suc by force
    then obtain chain1 storage1 where
      w: "write_bytes_with_caching (chunk_key_of key i) (compressor chunk) cache_chain storage =
          (Inr (), chain1, storage1)"
      using write_bytes_with_caching_total by blast
    have fresh: "chunk_key_of key i \<notin> tier_keys cache_chain"
      using Cons.prems(2) by simp
    note s = write_bytes_with_caching_success [OF w Cons.prems(1) fresh]
    from s have v1: "visible chain1 storage1 =
        (visible cache_chain storage)(chunk_key_of key i \<mapsto> compressor chunk)"
      by (rule conjunct1)
    from s have wf1: "\<forall>cache \<in> set chain1. wf_provider cache" by blast
    from s have tk: "tier_keys chain1 \<subseteq> insert (chunk_key_of key i) (tier_keys cache_chain)"
      by blast
    from s have ms: "map max_size chain1 = map max_size cache_chain" by blast
    have fresh1: "\<forall>j \<ge> Suc i. chunk_key_of key j \<notin> tier_keys chain1"
    proof (intro allI impI)
      fix j assume j: "Suc i \<le> j"
      then have "chunk_key_of key j \<noteq> chunk_key_of key i" by simp
      moreover have "chunk_key_of key j \<notin> tier_keys cache_chain"
        using Cons.prems(2) j by simp
      ultimately show "chunk_key_of key j \<notin> tier_keys chain1" using tk by blast
    qed
    have n': "n' < length rest" using Cons.prems(3) Suc by simp
    have f1: "\<forall>j < n'. fits_some chain1 (length (compressor (rest ! j)))"
    proof (intro allI impI)
      fix j assume "j < n'"
      then have "Suc j < n" using Suc by simp
      with Cons.prems(4) have "fits_some cache_chain (length (compressor ((chunk # rest) ! Suc j)))"
        by blast
      then show "fits_some chain1 (length (compressor (rest ! j)))"
        by (simp add: fits_some_max_size [OF ms])
    qed
    have f2: "\<not> fits_some chain1 (length (compressor (rest ! n')))"
      using Cons.prems(5) Suc by (simp add: fits_some_max_size [OF ms])
    from Cons.IH [OF wf1 fresh1 n' f1 f2, of "Some i" storage1]
    obtain chain' storage' where
      rec: "write_chunks key compressor (Suc i) (Some i) rest chain1 storage1 =
          (Inl CachingFailed, chain', storage')"
      and e': "\<forall>cache \<in> set chain'. mapper cache = []"
      and ms': "map max_size chain' = map max_size chain1"
      and in': "\<forall>j < n'. provider_get storage' (chunk_key_of key (Suc i + j)) =
          Some (compressor (rest ! j))"
      and out': "\<forall>k. (\<forall>j < n'. k \<noteq> chunk_key_of key (Suc i + j)) \<longrightarrow>
          provider_get storage' k = visible chain1 storage1 k"
      by blast
    have a: "write_chunks key compressor i bound (chunk # rest) cache_chain storage =
        (Inl CachingFailed, chain', storage')"
      using w rec by (simp add: Let_def)
    have b: "\<forall>j < n. provider_get storage' (chunk_key_of key (i + j)) =
        Some (compressor ((chunk # rest) ! j))"
    proof (intro allI impI)
      fix j assume j: "j < n"
      show "provider_get storage' (chunk_key_of key (i + j)) = Some (compressor ((chunk # rest) ! j))"
      proof (cases j)
        case 0
        have "provider_get storage' (chunk_key_of key i) = visible chain1 storage1 (chunk_key_of key i)"
          using out' by simp
        then show ?thesis using 0 v1 by simp
      next
        case j': (Suc j')
        then show ?thesis using in' j Suc by simp
      qed
    qed
    have c: "\<forall>k. (\<forall>j < n. k \<noteq> chunk_key_of key (i + j)) \<longrightarrow>
        provider_get storage' k = visible cache_chain storage k"
    proof (intro allI impI)
      fix k assume k: "\<forall>j < n. k \<noteq> chunk_key_of key (i + j)"
      then have k0: "k \<noteq> chunk_key_of key i" using Suc by force
      have "\<forall>j < n'. k \<noteq> chunk_key_of key (Suc i + j)"
      proof (intro allI impI)
        fix j assume "j < n'"
        then have "Suc j < n" using Suc by simp
        with k have "k \<noteq> chunk_key_of key (i + Suc j)" by blast
        then show "k \<noteq> chunk_key_of key (Suc i + j)" by simp
      qed
      with out' have "provider_get storage' k = visible chain1 storage1 k" by blast
      then show "provider_get storage' k = visible cache_chain storage k"
        using v1 k0 by simp
    qed
    have d: "map max_size chain' = map max_size cache_chain"
      using ms' ms by simp
    from a e' d b c show ?thesis by blast
  qed
qed

lemma write_bytes_with_caching_error:
  "write_bytes_with_caching key b cache_chain storage = (Inl e, chain', storage') \<Longrightarrow>
   e = CachingFailed"
  by (auto simp: write_bytes_with_caching_unfold split: if_splits)

lemma write_chunks_result:
  "write_chunks key compressor i bound chunks cache_chain storage = (res, chain', storage') \<Longrightarrow>
   res = Inl CachingFailed \<or>
   res = Inr (if chunks = [] then bound else Some (i + length chunks - 1))"
proof (induction chunks arbitrary: i bound cache_chain storage)
  case Nil
  then show ?case by simp
next
  case (Cons chunk rest)
  obtain r1 chain1 storage1 where
    w: "write_bytes_with_caching (chunk_key_of key i) (compressor chunk) cache_chain storage =
        (r1, chain1, storage1)"
    by (metis prod_cases3)
  show ?case
  proof (cases r1)
    case (Inl e)
    with w have "e = CachingFailed" by (auto dest: write_bytes_with_caching_error)
    with Cons.prems w Inl show ?thesis by (simp add: Let_def)
  next
    case (Inr u)
    with Cons.prems w have
      "write_chunks key compressor (Suc i) (Some i) rest chain1 storage1 = (res, chain', storage')"
      by (simp add: Let_def)
    from Cons.IH [OF this] show ?thesis by auto
  qed
qed

lemma empty_tiers:
  assumes "\<forall>cache \<in> set cache_chain. mapper cache = []"
  shows "\<forall>cache \<in> set cache_chain. wf_provider cache"
    and "tier_keys cache_chain = {}"
    and "visible cache_chain storage = provider_get storage"
proof -
  show "\<forall>cache \<in> set cache_chain. wf_provider cache"
    using assms by (simp add: wf_provider_def)
  show tk: "tier_keys cache_chain = {}"
    using assms by (simp add: tier_keys_def)
  have "cached cache_chain k = None" for k
    by (rule cached_fresh) (simp add: tk)
  then show "visible cache_chain storage = provider_get storage"
    by (simp add: visible_def fun_eq_iff map_add_def)
qed

lemma chunk_and_write_bytes_empty:
  "chunk_and_write_bytes [] key compressor chunk_size storage cache_chain =
     (Inl UnboundLocalError, flush_cache cache_chain storage)"
  by (simp add: chunk_and_write_bytes_def generate_chunks_def split_def)

lemma generate_chunks_nonempty:
  "0 < chunk_size \<Longrightarrow> b \<noteq> [] \<Longrightarrow> generate_chunks b chunk_size None \<noteq> []"
  by (simp add: generate_chunks_def) (subst chunks_of.simps, simp)

lemma chunk_and_write_bytes_result:
  assumes "0 < chunk_size" and "b \<noteq> []"
  shows "fst (chunk_and_write_bytes b key compressor chunk_size storage cache_chain) = Inl CachingFailed \<or>
    fst (chunk_and_write_bytes b key compressor chunk_size storage cache_chain) =
      Inr (0, length (generate_chunks b chunk_size None) - 1)"
proof -
  let ?chunks = "generate_chunks b chunk_size None"
  have ne: "?chunks \<noteq> []" using assms by (rule generate_chunks_nonempty)
  obtain res chain' storage' where
    w: "write_chunks key compressor 0 None ?chunks cache_chain storage = (res, chain', storage')"
    by (metis prod_cases3)
  from write_chunks_result [OF w] ne
  have "res = Inl CachingFailed \<or> res = Inr (Some (length ?chunks - 1))" by simp
  then show ?thesis
    by (auto simp: chunk_and_write_bytes_def Let_def w split_def)
qed

lemma chunk_and_write_bytes_success:
  assumes empty: "\<forall>cache \<in> set cache_chain. mapper cache = []"
    and fit: "\<forall>chunk \<in> set (generate_chunks b chunk_size None).
        fits_some cache_chain (length (compressor chunk))"
    and ne: "generate_chunks b chunk_size None \<noteq> []"
  shows "\<exists>chain' storage'.
    chunk_and_write_bytes b key compressor chunk_size storage cache_chain =
      (Inr (0, length (generate_chunks b chunk_size None) - 1), chain', storage') \<and>
    (\<forall>cache \<in> set chain'. mapper cache = []) \<and>
    (\<forall>j < length (generate_chunks b chunk_size None).
       provider_get storage' (chunk_key_of key j) =
         Some (compressor (generate_chunks b chunk_size None ! j))) \<and>
    (\<forall>k. (\<forall>j < length (generate_chunks b chunk_size None). k \<noteq> chunk_key_of key j) \<longrightarrow>
       provider_get storage' k = provider_get storage k)"
proof -
  let ?chunks = "generate_chunks b chunk_size None"
  note e = empty_tiers [OF empty]
  from write_chunks_total [OF fit, of key 0 None storage]
  obtain r chain1 storage1 where
    w: "write_chunks key compressor 0 None ?chunks cache_chain storage = (Inr r, chain1, storage1)"
    by blast
  have fresh: "\<forall>j \<ge> 0. chunk_key_of key j \<notin> tier_keys cache_chain"
    by (simp add: e(2))
  note s = write_chunks_success [OF w e(1) fresh]
  from s ne have r: "r = Some (length ?chunks - 1)" by simp
  from s have wf1: "\<forall>cache \<in> set chain1. wf_provider cache" by blast
  from s have in1: "\<forall>j < length ?chunks.
      visible chain1 storage1 (chunk_key_of key j) = Some (compressor (?chunks ! j))"
    by simp
  from s have out1: "\<forall>k. (\<forall>j < length ?chunks. k \<noteq> chunk_key_of key j) \<longrightarrow>
      visible chain1 storage1 k = provider_get storage k"
    by (simp add: e(3))
  let ?chain' = "map (\<lambda>cache. cache\<lparr>mapper := []\<rparr>) chain1"
  let ?storage' = "snd (flush_cache chain1 storage1)"
  have fl: "flush_cache chain1 storage1 = (?chain', ?storage')"
    by (rule flush_cache_result)
  have v: "provider_get ?storage' = visible chain1 storage1"
    using wf1 by (rule visible_flush)
  have 1: "chunk_and_write_bytes b key compressor chunk_size storage cache_chain =
      (Inr (0, length ?chunks - 1), ?chain', ?storage')"
    by (simp add: chunk_and_write_bytes_def Let_def w r split_def)
      (simp add: prod_eq_iff flush_cache_chain)
  have 2: "\<forall>cache \<in> set ?chain'. mapper cache = []" by simp
  from 1 2 in1 out1 show ?thesis
    unfolding v [symmetric] by blast
qed


lemma chunk_and_write_bytes_fail:
  assumes empty: "\<forall>cache \<in> set cache_chain. mapper cache = []"
    and n: "n < length (generate_chunks b chunk_size None)"
    and fit: "\<forall>j < n. fits_some cache_chain (length (compressor (generate_chunks b chunk_size None ! j)))"
    and nofit: "\<not> fits_some cache_chain (length (compressor (generate_chunks b chunk_size None ! n)))"
  shows "\<exists>chain' storage'.
    chunk_and_write_bytes b key compressor chunk_size storage cache_chain =
      (Inl CachingFailed, chain', storage') \<and>
    (\<forall>cache \<in> set chain'. mapper cache = []) \<and>
    (\<forall>j < n. provider_get storage' (chunk_key_of key j) =
         Some (compressor (generate_chunks b chunk_size None ! j))) \<and>
    (\<forall>k. (\<forall>j < n. k \<noteq> chunk_key_of key j) \<longrightarrow>
       provider_get storage' k = provider_get storage k)"
proof -
  let ?chunks = "generate_chunks b chunk_size None"
  note e = empty_tiers [OF empty]
  have fresh: "\<forall>j \<ge> 0. chunk_key_of key j \<notin> tier_keys cache_chain"
    by (simp add: e(2))
  from write_chunks_fail [OF e(1) fresh n, of compressor None storage] fit nofit
  obtain chain' storage' where
    w: "write_chunks key compressor 0 None ?chunks cache_chain storage =
        (Inl CachingFailed, chain', storage')"
    and 2: "\<forall>cache \<in> set chain'. mapper cache = []"
    and 3: "\<forall>j < n. provider_get storage' (chunk_key_of key j) = Some (compressor (?chunks ! j))"
    and 4: "\<forall>k. (\<forall>j < n. k \<noteq> chunk_key_of key j) \<longrightarrow>
        provider_get storage' k = visible cache_chain storage k"
    by auto
  have 1: "chunk_and_write_bytes b key compressor chunk_size storage cache_chain =
      (Inl CachingFailed, chain', storage')"
    by (simp add: chunk_and_write_bytes_def Let_def w)
  from 1 2 3 4 show ?thesis
    unfolding e(3) by blast
qed

lemma length_last_chunks_of:
  "0 < c \<Longrightarrow> b \<noteq> [] \<Longrightarrow>
   length (last (chunks_of c b)) = (if length b mod c = 0 then c else length b mod c)"
proof (induction c b rule: chunks_of.induct)
  case (1 c b)
  have unf: "chunks_of c b = take c b # chunks_of c (drop c b)"
    using 1(2,3) by (subst chunks_of.simps) simp
  show ?case
  proof (cases "drop c b = []")
    case True
    then have "chunks_of c (drop c b) = []" by (subst chunks_of.simps) simp
    moreover from True have le: "length b \<le> c" by simp
    moreover have "length b mod c = (if length b = c then 0 else length b)"
      using le by (cases "length b = c") simp_all
    moreover have "0 < length b" using 1(3) by simp
    ultimately show ?thesis using le by (simp add: unf)
  next
    case False
    then have ne: "chunks_of c (drop c b) \<noteq> []"
      using 1(2) by (subst chunks_of.simps) simp
    from False have lt: "c < length b" by simp
    have "length (last (chunks_of c (drop c b))) =
        (if length (drop c b) mod c = 0 then c else length (drop c b) mod c)"
      using 1 False by simp
    moreover have "(length b - c) mod c = length b mod c"
      using lt by (simp add: le_mod_geq)
    ultimately show ?thesis using ne by (simp add: unf)
  qed
qed

text \<open>
  Claim C10. For an empty payload the generator yields nothing, \<open>local_chunk_index\<close> is
  never bound, and \<^verbatim>\<open>chunk_and_write_bytes\<close> ends, after the flush, with the unbound-variable
  error instead of a chunk range. For a chunk size of at least 1 this error arises for
  the empty payload only, and with an empty cache chain every non-empty payload returns
  the range from 0 to the index of its last chunk.
\<close>

theorem chunk_and_write_bytes_empty_payload:
  "generate_chunks [] chunk_size None = [] \<and>
   chunk_and_write_bytes [] key compressor chunk_size storage cache_chain =
     (Inl UnboundLocalError, flush_cache cache_chain storage) \<and>
   (1 \<le> chunk_size \<longrightarrow>
      (fst (chunk_and_write_bytes b key compressor chunk_size storage cache_chain) =
         Inl UnboundLocalError \<longleftrightarrow> b = [])) \<and>
   (1 \<le> chunk_size \<and> b \<noteq> [] \<longrightarrow>
      fst (chunk_and_write_bytes b key compressor chunk_size storage []) =
        Inr (0, length (generate_chunks b chunk_size None) - 1))"
proof (intro conjI impI)
  show "generate_chunks [] chunk_size None = []"
    by (simp add: generate_chunks_def)
  show "chunk_and_write_bytes [] key compressor chunk_size storage cache_chain =
     (Inl UnboundLocalError, flush_cache cache_chain storage)"
    by (rule chunk_and_write_bytes_empty)
next
  assume c: "1 \<le> chunk_size"
  show "fst (chunk_and_write_bytes b key compressor chunk_size storage cache_chain) =
         Inl UnboundLocalError \<longleftrightarrow> b = []"
  proof (cases "b = []")
    case True
    then show ?thesis by (simp add: chunk_and_write_bytes_empty)
  next
    case False
    with c chunk_and_write_bytes_result [of chunk_size b key compressor storage cache_chain]
    show ?thesis by auto
  qed
next
  assume h: "1 \<le> chunk_size \<and> b \<noteq> []"
  then have ne: "generate_chunks b chunk_size None \<noteq> []"
    by (intro generate_chunks_nonempty) simp_all
  have "\<forall>chunk \<in> set (generate_chunks b chunk_size None). fits_some [] (length (compressor chunk))"
    by (simp add: fits_some_def)
  from chunk_and_write_bytes_success [OF _ this ne, of key storage]
  show "fst (chunk_and_write_bytes b key compressor chunk_size storage []) =
        Inr (0, length (generate_chunks b chunk_size None) - 1)"
    by auto
qed

theorem chunk_and_write_bytes_empty_payload_witness:
  "(1::nat) \<le> 4 \<and> ''abcde'' \<noteq> [] \<and>
   fst (chunk_and_write_bytes ''abcde'' ''tensor'' toy_compressor 4
          \<lparr>mapper = [], max_size = None\<rparr> []) = Inr (0, 1) \<and>
   fst (chunk_and_write_bytes [] ''tensor'' toy_compressor 4
          \<lparr>mapper = [], max_size = None\<rparr> []) = Inl UnboundLocalError"
proof -
  have h: "(1::nat) \<le> 4 \<and> ''abcde'' \<noteq> []" by simp
  note t = chunk_and_write_bytes_empty_payload [of 4 "''tensor''" toy_compressor
      "\<lparr>mapper = [], max_size = None\<rparr>" "[]" "''abcde''"]
  from t h have "fst (chunk_and_write_bytes ''abcde'' ''tensor'' toy_compressor 4
          \<lparr>mapper = [], max_size = None\<rparr> []) =
      Inr (0, length (generate_chunks ''abcde'' 4 None) - 1)"
    by blast
  moreover have "generate_chunks ''abcde'' 4 None = [''abcd'', ''e'']"
    by code_simp
  moreover from t have "chunk_and_write_bytes [] ''tensor'' toy_compressor 4
          \<lparr>mapper = [], max_size = None\<rparr> [] =
      (Inl UnboundLocalError, flush_cache [] \<lparr>mapper = [], max_size = None\<rparr>)"
    by blast
  ultimately show ?thesis by simp
qed

text \<open>
  Claim C3 is not what the code does: \<^verbatim>\<open>chunk_and_write_bytes\<close> passes every chunk
  through the compressor (line 77), the incomplete last one too. After a write that
  succeeds, from empty tiers, the backend holds under the key of each chunk the
  compressed chunk, whatever its length; the last chunk holds \<open>length b mod chunk_size\<close>
  bytes when that is not zero.
\<close>

theorem every_chunk_is_compressed:
  assumes c: "1 \<le> chunk_size" and b: "b \<noteq> []"
    and empty: "\<forall>cache \<in> set cache_chain. mapper cache = []"
    and fit: "\<forall>chunk \<in> set (generate_chunks b chunk_size None).
        fits_some cache_chain (length (compressor chunk))"
  shows "fst (chunk_and_write_bytes b key compressor chunk_size storage cache_chain) =
      Inr (0, length (generate_chunks b chunk_size None) - 1) \<and>
    (\<forall>j < length (generate_chunks b chunk_size None).
       provider_get (snd (snd (chunk_and_write_bytes b key compressor chunk_size storage cache_chain)))
         (chunk_key_of key j) = Some (compressor (generate_chunks b chunk_size None ! j))) \<and>
    provider_get (snd (snd (chunk_and_write_bytes b key compressor chunk_size storage cache_chain)))
      (chunk_key_of key (length (generate_chunks b chunk_size None) - 1)) =
      Some (compressor (last (generate_chunks b chunk_size None))) \<and>
    length (last (generate_chunks b chunk_size None)) =
      (if length b mod chunk_size = 0 then chunk_size else length b mod chunk_size)"
proof -
  let ?chunks = "generate_chunks b chunk_size None"
  let ?R = "chunk_and_write_bytes b key compressor chunk_size storage cache_chain"
  have c0: "0 < chunk_size" using c by simp
  have ne: "?chunks \<noteq> []" using c0 b by (rule generate_chunks_nonempty)
  from chunk_and_write_bytes_success [OF empty fit ne, of key storage]
  obtain chain' storage' where
    r: "?R = (Inr (0, length ?chunks - 1), chain', storage')"
    and st: "\<forall>j < length ?chunks. provider_get storage' (chunk_key_of key j) =
        Some (compressor (?chunks ! j))"
    by blast
  have 1: "fst ?R = Inr (0, length ?chunks - 1)" by (simp add: r)
  have 2: "\<forall>j < length ?chunks. provider_get (snd (snd ?R)) (chunk_key_of key j) =
        Some (compressor (?chunks ! j))"
    using st by (simp add: r)
  have "length ?chunks - 1 < length ?chunks" using ne by simp
  with 2 have "provider_get (snd (snd ?R)) (chunk_key_of key (length ?chunks - 1)) =
      Some (compressor (?chunks ! (length ?chunks - 1)))"
    by blast
  then have 3: "provider_get (snd (snd ?R)) (chunk_key_of key (length ?chunks - 1)) =
      Some (compressor (last ?chunks))"
    using ne by (simp add: last_conv_nth)
  have "?chunks = chunks_of chunk_size b"
    using b by (simp add: generate_chunks_def)
  then have 4: "length (last ?chunks) =
      (if length b mod chunk_size = 0 then chunk_size else length b mod chunk_size)"
    using length_last_chunks_of [OF c0 b] by simp
  from 1 2 3 4 show ?thesis by blast
qed

theorem every_chunk_is_compressed_witness:
  "(1::nat) \<le> 4 \<and> ''123'' \<noteq> [] \<and>
   generate_chunks ''123'' 4 None = [''123''] \<and>
   length (last (generate_chunks ''123'' 4 None)) = 3 \<and>
   provider_get (snd (snd (chunk_and_write_bytes ''123'' ''tensor'' toy_compressor 4
       \<lparr>mapper = [], max_size = None\<rparr> []))) ''tensor/c0'' = Some ''r123''"
proof -
  have g: "generate_chunks ''123'' 4 None = [''123'']" by code_simp
  have k: "chunk_key_of ''tensor'' 0 = ''tensor/c0''" by code_simp
  have "provider_get (snd (snd (chunk_and_write_bytes ''123'' ''tensor'' toy_compressor 4
       \<lparr>mapper = [], max_size = None\<rparr> [])))
      (chunk_key_of ''tensor'' (length (generate_chunks ''123'' 4 None) - 1)) =
      Some (toy_compressor (last (generate_chunks ''123'' 4 None)))"
    using every_chunk_is_compressed [of 4 "''123''" "[]" toy_compressor "''tensor''"
        "\<lparr>mapper = [], max_size = None\<rparr>"]
    by (simp add: fits_some_def)
  then show ?thesis
    by (simp add: g k toy_compressor_def)
qed

lemma chunk_and_write_array_error:
  "chunk_and_write_bytes (array_to_bytes array) key compressor chunk_size storage cache_chain =
     (Inl e, chain', storage') \<Longrightarrow>
   chunk_and_write_array pickle_dumps array key compressor chunk_size storage cache_chain False =
     (Inl e, chain', storage')"
  by (simp add: chunk_and_write_array_def Let_def)

text \<open>
  Claim C5, as amended. A payload that no tier of a non-empty chain has room for, even
  after the flush, makes \<^verbatim>\<open>write_bytes_with_caching\<close> raise the capacity error; the payload
  is stored nowhere, and the chain and the backend are left as the flush leaves them, the
  backend holding all that the tiers held. In a sample write that starts from empty
  tiers and whose chunk \<open>n\<close> is the first that fits no tier (\<open>fits\<close>: the empty tier has
  room), the error is raised, the tiers are empty, the chunks before \<open>n\<close> of that call
  are in the backend, and every other key of the backend, that of chunk \<open>n\<close> and that of
  the index map among them, is as it was.
\<close>

theorem capacity_exhaustion:
  "(cache_chain \<noteq> [] \<and>
    (\<forall>cache \<in> set (fst (flush_cache cache_chain storage)). \<not> has_space cache (length b)) \<longrightarrow>
      write_bytes_with_caching key b cache_chain storage =
        (Inl CachingFailed, flush_cache cache_chain storage)) \<and>
   (let chunks = generate_chunks (array_to_bytes array) chunk_size None;
        result = chunk_and_write_array pickle_dumps array key compressor chunk_size storage
                   cache_chain False
    in (\<forall>cache \<in> set cache_chain. mapper cache = []) \<and> n < length chunks \<and>
       (\<forall>j < n. fits_some cache_chain (length (compressor (chunks ! j)))) \<and>
       \<not> fits_some cache_chain (length (compressor (chunks ! n))) \<longrightarrow>
         fst result = Inl CachingFailed \<and>
         (\<forall>cache \<in> set (fst (snd result)). mapper cache = []) \<and>
         (\<forall>j < n. provider_get (snd (snd result)) (chunk_key_of key j) =
            Some (compressor (chunks ! j))) \<and>
         (\<forall>k. (\<forall>j < n. k \<noteq> chunk_key_of key j) \<longrightarrow>
            provider_get (snd (snd result)) k = provider_get storage k))"
proof (intro conjI impI)
  assume h: "cache_chain \<noteq> [] \<and>
    (\<forall>cache \<in> set (fst (flush_cache cache_chain storage)). \<not> has_space cache (length b))"
  have "\<forall>cache \<in> set cache_chain. \<not> fits cache (length b)"
  proof
    fix cache assume c: "cache \<in> set cache_chain"
    then have "cache\<lparr>mapper := []\<rparr> \<in> set (fst (flush_cache cache_chain storage))"
      by (simp add: flush_cache_chain)
    with h have "\<not> has_space (cache\<lparr>mapper := []\<rparr>) (length b)" by blast
    then show "\<not> fits cache (length b)"
      by (simp add: has_space_empty)
  qed
  with h have "\<not> fits_some cache_chain (length b)"
    by (simp add: fits_some_def)
  from write_bytes_with_caching_fail [OF this, of key storage]
  show "write_bytes_with_caching key b cache_chain storage =
        (Inl CachingFailed, flush_cache cache_chain storage)"
    by (simp add: prod_eq_iff flush_cache_chain)
next
  let ?chunks = "generate_chunks (array_to_bytes array) chunk_size None"
  let ?R = "chunk_and_write_array pickle_dumps array key compressor chunk_size storage cache_chain False"
  have "(\<forall>cache \<in> set cache_chain. mapper cache = []) \<and> n < length ?chunks \<and>
       (\<forall>j < n. fits_some cache_chain (length (compressor (?chunks ! j)))) \<and>
       \<not> fits_some cache_chain (length (compressor (?chunks ! n))) \<longrightarrow>
         fst ?R = Inl CachingFailed \<and>
         (\<forall>cache \<in> set (fst (snd ?R)). mapper cache = []) \<and>
         (\<forall>j < n. provider_get (snd (snd ?R)) (chunk_key_of key j) =
            Some (compressor (?chunks ! j))) \<and>
         (\<forall>k. (\<forall>j < n. k \<noteq> chunk_key_of key j) \<longrightarrow>
            provider_get (snd (snd ?R)) k = provider_get storage k)"
  proof
    assume h: "(\<forall>cache \<in> set cache_chain. mapper cache = []) \<and> n < length ?chunks \<and>
       (\<forall>j < n. fits_some cache_chain (length (compressor (?chunks ! j)))) \<and>
       \<not> fits_some cache_chain (length (compressor (?chunks ! n)))"
    from h have 1: "\<forall>cache \<in> set cache_chain. mapper cache = []" by (rule conjunct1)
    from h have 2: "n < length ?chunks" by blast
    from h have 3: "\<forall>j < n. fits_some cache_chain (length (compressor (?chunks ! j)))" by blast
    from h have 4: "\<not> fits_some cache_chain (length (compressor (?chunks ! n)))" by blast
    from chunk_and_write_bytes_fail [OF 1 2 3 4, of key storage]
    obtain chain' storage' where
      w: "chunk_and_write_bytes (array_to_bytes array) key compressor chunk_size storage cache_chain =
          (Inl CachingFailed, chain', storage')"
      and a: "\<forall>cache \<in> set chain'. mapper cache = []"
      and b: "\<forall>j < n. provider_get storage' (chunk_key_of key j) = Some (compressor (?chunks ! j))"
      and c: "\<forall>k. (\<forall>j < n. k \<noteq> chunk_key_of key j) \<longrightarrow>
          provider_get storage' k = provider_get storage k"
      by blast
    have r: "?R = (Inl CachingFailed, chain', storage')"
      using w by (rule chunk_and_write_array_error)
    show "fst ?R = Inl CachingFailed \<and>
         (\<forall>cache \<in> set (fst (snd ?R)). mapper cache = []) \<and>
         (\<forall>j < n. provider_get (snd (snd ?R)) (chunk_key_of key j) =
            Some (compressor (?chunks ! j))) \<and>
         (\<forall>k. (\<forall>j < n. k \<noteq> chunk_key_of key j) \<longrightarrow>
            provider_get (snd (snd ?R)) k = provider_get storage k)"
      unfolding r using a b c by simp
  qed
  then show "let chunks = ?chunks; result = ?R in
       (\<forall>cache \<in> set cache_chain. mapper cache = []) \<and> n < length chunks \<and>
       (\<forall>j < n. fits_some cache_chain (length (compressor (chunks ! j)))) \<and>
       \<not> fits_some cache_chain (length (compressor (chunks ! n))) \<longrightarrow>
         fst result = Inl CachingFailed \<and>
         (\<forall>cache \<in> set (fst (snd result)). mapper cache = []) \<and>
         (\<forall>j < n. provider_get (snd (snd result)) (chunk_key_of key j) =
            Some (compressor (chunks ! j))) \<and>
         (\<forall>k. (\<forall>j < n. k \<noteq> chunk_key_of key j) \<longrightarrow>
            provider_get (snd (snd result)) k = provider_get storage k)"
    unfolding Let_def .
qed

text \<open>
  Claim C5 as stated fails: the first chunk of the payload is in the backend after the
  write has raised the capacity error for the second.
\<close>

theorem capacity_exhaustion_counterexample:
  "chunk_and_write_bytes ''aaaabcde'' ''tensor'' toy_compressor 4
     \<lparr>mapper = [], max_size = None\<rparr> [\<lparr>mapper = [], max_size = Some 4\<rparr>] =
   (Inl CachingFailed, [\<lparr>mapper = [], max_size = Some 4\<rparr>],
    \<lparr>mapper = [(''tensor/c0'', ''4a'')], max_size = None\<rparr>)"
  by code_simp


theorem capacity_exhaustion_witness:
  "[\<lparr>mapper = [(''tensor/c0'', ''4a'')], max_size = Some 4\<rparr>] \<noteq> [] \<and>
   \<not> has_space \<lparr>mapper = [], max_size = Some 4\<rparr> (length ''rbcde'') \<and>
   write_bytes_with_caching ''tensor/c1'' ''rbcde''
     [\<lparr>mapper = [(''tensor/c0'', ''4a'')], max_size = Some 4\<rparr>] \<lparr>mapper = [], max_size = None\<rparr> =
     (Inl CachingFailed, [\<lparr>mapper = [], max_size = Some 4\<rparr>],
      \<lparr>mapper = [(''tensor/c0'', ''4a'')], max_size = None\<rparr>) \<and>
   fits_some [\<lparr>mapper = [], max_size = Some 4\<rparr>] (length (toy_compressor ''aaaa'')) \<and>
   \<not> fits_some [\<lparr>mapper = [], max_size = Some 4\<rparr>] (length (toy_compressor ''bcde'')) \<and>
   fst (chunk_and_write_array (\<lambda>index_map. []) \<lparr>dtype = uint8, shape = [8], data = ''aaaabcde''\<rparr>
          ''tensor'' toy_compressor 4 \<lparr>mapper = [], max_size = None\<rparr>
          [\<lparr>mapper = [], max_size = Some 4\<rparr>] False) = Inl CachingFailed \<and>
   provider_get (snd (snd (chunk_and_write_array (\<lambda>index_map. [])
          \<lparr>dtype = uint8, shape = [8], data = ''aaaabcde''\<rparr>
          ''tensor'' toy_compressor 4 \<lparr>mapper = [], max_size = None\<rparr>
          [\<lparr>mapper = [], max_size = Some 4\<rparr>] False))) ''tensor/c0'' = Some ''4a''"
proof -
  let ?tier = "\<lparr>mapper = [], max_size = Some (4::nat)\<rparr>"
  let ?full = "\<lparr>mapper = [(''tensor/c0'', ''4a'')], max_size = Some (4::nat)\<rparr>"
  let ?storage = "\<lparr>mapper = [], max_size = None\<rparr>"
  let ?array = "\<lparr>dtype = uint8, shape = [8], data = ''aaaabcde''\<rparr>"
  let ?R = "chunk_and_write_array (\<lambda>index_map. []) ?array ''tensor'' toy_compressor 4 ?storage
      [?tier] False"
  have fl: "flush_cache [?full] ?storage = ([?tier], \<lparr>mapper = [(''tensor/c0'', ''4a'')], max_size = None\<rparr>)"
    by (simp add: flush_tier_def provider_set_def provider_del_def)
  have ns: "\<not> has_space ?tier (length ''rbcde'')"
    by (simp add: has_space_def used_space_def)
  note t1 = capacity_exhaustion [of "[?full]" ?storage "''rbcde''" "''tensor/c1''",
      THEN conjunct1, unfolded fl]
  have 1: "write_bytes_with_caching ''tensor/c1'' ''rbcde'' [?full] ?storage =
      (Inl CachingFailed, [?tier], \<lparr>mapper = [(''tensor/c0'', ''4a'')], max_size = None\<rparr>)"
    using t1 ns by simp
  have g: "generate_chunks (array_to_bytes ?array) 4 None = [''aaaa'', ''bcde'']"
    by code_simp
  have k: "chunk_key_of ''tensor'' 0 = ''tensor/c0''" by code_simp
  have f0: "fits_some [?tier] (length (toy_compressor ''aaaa''))"
    by (simp add: fits_some_def fits_def toy_compressor_def)
  have f1: "\<not> fits_some [?tier] (length (toy_compressor ''bcde''))"
    by (simp add: fits_some_def fits_def toy_compressor_def)
  note t2 = capacity_exhaustion [where array = ?array and chunk_size = 4 and n = 1
      and cache_chain = "[?tier]" and compressor = toy_compressor and key = "''tensor''"
      and storage = ?storage and pickle_dumps = "\<lambda>index_map. []",
      THEN conjunct2, unfolded Let_def g]
  have h: "(\<forall>cache \<in> set [?tier]. mapper cache = []) \<and> (1::nat) < length [''aaaa'', ''bcde''] \<and>
      (\<forall>j < 1. fits_some [?tier] (length (toy_compressor ([''aaaa'', ''bcde''] ! j)))) \<and>
      \<not> fits_some [?tier] (length (toy_compressor ([''aaaa'', ''bcde''] ! 1)))"
    using f0 f1 by simp
  from t2 h have c: "fst ?R = Inl CachingFailed \<and>
      (\<forall>j < 1. provider_get (snd (snd ?R)) (chunk_key_of ''tensor'' j) =
         Some (toy_compressor ([''aaaa'', ''bcde''] ! j)))"
    by blast
  then have 2: "fst ?R = Inl CachingFailed" by (rule conjunct1)
  from c have "provider_get (snd (snd ?R)) (chunk_key_of ''tensor'' 0) =
      Some (toy_compressor ([''aaaa'', ''bcde''] ! 0))"
    by simp
  then have 3: "provider_get (snd (snd ?R)) ''tensor/c0'' = Some ''4a''"
    by (simp add: k toy_compressor_def)
  from ns 1 f0 f1 2 3 show ?thesis by simp
qed

section \<open>Properties of the shape normalizer\<close>

lemma squeeze_tail_step:
  "2 < length s \<Longrightarrow> last s = 1 \<Longrightarrow> squeeze_tail s = squeeze_tail (butlast s)"
  by (subst squeeze_tail.simps) simp

lemma squeeze_tail_stop: "\<not> (2 < length s \<and> last s = 1) \<Longrightarrow> squeeze_tail s = s"
  by (subst squeeze_tail.simps) (simp only: if_False)

lemma squeeze_tail_prefix: "\<exists>k. s = squeeze_tail s @ replicate k 1"
proof (induction s rule: squeeze_tail.induct)
  case (1 s)
  show ?case
  proof (cases "2 < length s \<and> last s = 1")
    case True
    then have e: "squeeze_tail s = squeeze_tail (butlast s)"
      by (subst squeeze_tail.simps) simp
    from 1 True obtain k where k: "butlast s = squeeze_tail (butlast s) @ replicate k 1"
      by blast
    from True have "s \<noteq> []" by auto
    then have "s = butlast s @ [last s]" by simp
    with True have "s = butlast s @ [1]" by simp
    with k have "s = squeeze_tail (butlast s) @ replicate k 1 @ [1]"
      by (metis append_assoc)
    also have "replicate k 1 @ [1::nat] = replicate (Suc k) 1"
      by (simp add: replicate_append_same)
    finally show ?thesis unfolding e by blast
  next
    case False
    then have "squeeze_tail s = s" by (rule squeeze_tail_stop)
    then have "s = squeeze_tail s @ replicate 0 1" by simp
    then show ?thesis by blast
  qed
qed

lemma squeeze_tail_no_trailing: "length (squeeze_tail s) \<le> 2 \<or> last (squeeze_tail s) \<noteq> 1"
proof (induction s rule: squeeze_tail.induct)
  case (1 s)
  show ?case
  proof (cases "2 < length s \<and> last s = 1")
    case True
    then have "squeeze_tail s = squeeze_tail (butlast s)"
      by (subst squeeze_tail.simps) simp
    with 1 True show ?thesis by simp
  next
    case False
    then have "squeeze_tail s = s" by (rule squeeze_tail_stop)
    with False show ?thesis by auto
  qed
qed

lemma squeeze_tail_rank: "length (squeeze_tail s) = length s \<or> 2 \<le> length (squeeze_tail s)"
proof (induction s rule: squeeze_tail.induct)
  case (1 s)
  show ?case
  proof (cases "2 < length s \<and> last s = 1")
    case True
    then have "squeeze_tail s = squeeze_tail (butlast s)"
      by (subst squeeze_tail.simps) simp
    with 1 True show ?thesis by auto
  next
    case False
    then have "squeeze_tail s = s" by (rule squeeze_tail_stop)
    then show ?thesis by simp
  qed
qed

lemma squeeze_tail_length_le: "length (squeeze_tail s) \<le> length s"
proof -
  obtain k where "s = squeeze_tail s @ replicate k 1"
    using squeeze_tail_prefix by blast
  then have "length s = length (squeeze_tail s) + k"
    by (metis length_append length_replicate)
  then show ?thesis by simp
qed

lemma squeeze_tail_least:
  "s = p @ replicate j 1 \<Longrightarrow> 2 \<le> length p \<Longrightarrow> length (squeeze_tail s) \<le> length p"
proof (induction s arbitrary: j rule: squeeze_tail.induct)
  case (1 s)
  show ?case
  proof (cases j)
    case 0
    with 1(2) have "s = p" by simp
    then show ?thesis using squeeze_tail_length_le [of s] by simp
  next
    case (Suc j')
    have s: "s = (p @ replicate j' 1) @ [1]"
      using 1(2) Suc by (simp add: replicate_append_same)
    have l: "last s = 1" by (subst s) (rule last_snoc)
    have b: "butlast s = p @ replicate j' 1" by (subst s) (rule butlast_snoc)
    have "2 < length s" using s 1(3) by simp
    with l have c: "2 < length s \<and> last s = 1" by simp
    then have "squeeze_tail s = squeeze_tail (butlast s)"
      by (subst squeeze_tail.simps) simp
    with 1(1) [OF c b 1(3)] show ?thesis by simp
  qed
qed

lemma squeeze_tail_ones:
  assumes "\<forall>d \<in> set s. d = 1" and "2 \<le> length s"
  shows "squeeze_tail s = [1, 1]"
proof -
  obtain k where k: "s = squeeze_tail s @ replicate k 1"
    using squeeze_tail_prefix by blast
  let ?r = "squeeze_tail s"
  have "set ?r \<subseteq> set s" using k by (metis set_append Un_upper1)
  with assms(1) have ones: "\<forall>d \<in> set ?r. d = 1" by blast
  then have r: "?r = replicate (length ?r) 1"
    by (simp add: replicate_length_same)
  have ge: "2 \<le> length ?r"
    using squeeze_tail_rank [of s] assms(2) by auto
  then have "?r \<noteq> []" by auto
  then have "last ?r \<in> set ?r" by simp
  with ones have "last ?r = 1" by blast
  with squeeze_tail_no_trailing [of s] ge have "length ?r = 2" by simp
  with r have "?r = replicate 2 1" by simp
  then show ?thesis by (simp add: numeral_2_eq_2)
qed

lemma prod_list_squeeze_tail: "prod_list (squeeze_tail s) = prod_list s"
proof -
  obtain k where k: "s = squeeze_tail s @ replicate k 1"
    using squeeze_tail_prefix by blast
  have "prod_list (squeeze_tail s @ replicate k 1) = prod_list (squeeze_tail s)"
    by (simp add: prod_list_replicate)
  with k show ?thesis by simp
qed

lemma squeeze_tail_Cons:
  "\<exists>t k. squeeze_tail (d # s) = d # t \<and> s = t @ replicate k 1"
proof -
  obtain k where k: "d # s = squeeze_tail (d # s) @ replicate k 1"
    using squeeze_tail_prefix by blast
  have "squeeze_tail (d # s) \<noteq> []"
    using squeeze_tail_rank [of "d # s"] by auto
  then obtain x t where r: "squeeze_tail (d # s) = x # t"
    by (cases "squeeze_tail (d # s)") auto
  with k have "x = d" and "s = t @ replicate k 1" by simp_all
  with r show ?thesis by blast
qed


text \<open>
  Claim C9. With \<open>s'\<close> the shape of the array, behind a leading 1 if the array is not
  batched, the shape \<open>r\<close> of the normalized array is \<open>s'\<close> without some trailing dimensions
  of size 1; it has no trailing 1 beyond rank 2, has rank at least 2 if \<open>s'\<close> has, and no
  shorter cut of \<open>s'\<close> of rank at least 2 drops 1s only; a shape \<open>s'\<close> of 1s collapses to
  \<open>(1, 1)\<close>; for an unbatched array \<open>r\<close> is a leading 1 before a cut of the array's own
  shape. The elements in row-major order, the buffer, the dtype and the number of
  elements are those of the array.
\<close>

theorem normalize_and_batchify_shape_contract:
  "(let s' = (if batched then shape array else 1 # shape array);
        r = shape (normalize_and_batchify_shape array batched)
    in (\<exists>k. s' = r @ replicate k 1) \<and>
       (length r \<le> 2 \<or> last r \<noteq> 1) \<and>
       (2 \<le> length s' \<longrightarrow> 2 \<le> length r) \<and>
       (\<forall>p j. s' = p @ replicate j 1 \<and> 2 \<le> length p \<longrightarrow> length r \<le> length p) \<and>
       ((\<forall>d \<in> set s'. d = 1) \<and> 2 \<le> length s' \<longrightarrow> r = [1, 1]) \<and>
       (\<not> batched \<longrightarrow> (\<exists>t k. r = 1 # t \<and> shape array = t @ replicate k 1)) \<and>
       prod_list r = prod_list (shape array)) \<and>
   flatten (normalize_and_batchify_shape array batched) = flatten array \<and>
   data (normalize_and_batchify_shape array batched) = data array \<and>
   dtype (normalize_and_batchify_shape array batched) = dtype array"
proof -
  let ?s' = "if batched then shape array else 1 # shape array"
  let ?r = "shape (normalize_and_batchify_shape array batched)"
  have r: "?r = squeeze_tail ?s'"
    by (simp add: normalize_and_batchify_shape_def normalize_shape_def)
  have 1: "\<exists>k. ?s' = ?r @ replicate k 1"
    unfolding r by (rule squeeze_tail_prefix)
  have 2: "length ?r \<le> 2 \<or> last ?r \<noteq> 1"
    unfolding r by (rule squeeze_tail_no_trailing)
  have 3: "2 \<le> length ?s' \<longrightarrow> 2 \<le> length ?r"
    unfolding r using squeeze_tail_rank [of ?s'] by auto
  have 4: "\<forall>p j. ?s' = p @ replicate j 1 \<and> 2 \<le> length p \<longrightarrow> length ?r \<le> length p"
    unfolding r using squeeze_tail_least by blast
  have 5: "(\<forall>d \<in> set ?s'. d = 1) \<and> 2 \<le> length ?s' \<longrightarrow> ?r = [1, 1]"
    unfolding r using squeeze_tail_ones by blast
  have 6: "\<not> batched \<longrightarrow> (\<exists>t k. ?r = 1 # t \<and> shape array = t @ replicate k 1)"
  proof
    assume "\<not> batched"
    then have "?r = squeeze_tail (1 # shape array)" using r by simp
    then show "\<exists>t k. ?r = 1 # t \<and> shape array = t @ replicate k 1"
      using squeeze_tail_Cons [of 1 "shape array"] by simp
  qed
  have 7: "prod_list ?r = prod_list (shape array)"
    unfolding r by (simp add: prod_list_squeeze_tail)
  have 8: "flatten (normalize_and_batchify_shape array batched) = flatten array"
    by (simp add: flatten_def normalize_and_batchify_shape_def)
  have 9: "data (normalize_and_batchify_shape array batched) = data array"
    "dtype (normalize_and_batchify_shape array batched) = dtype array"
    by (simp_all add: normalize_and_batchify_shape_def)
  from 1 2 3 4 5 6 7 8 9 show ?thesis
    unfolding Let_def by blast
qed

lemma squeeze_tail_eval:
  "squeeze_tail [] = []"
  "squeeze_tail [a] = [a]"
  "squeeze_tail [a, b] = [a, b]"
  "squeeze_tail (a # b # c # s) =
     (if last (c # s) = 1 then squeeze_tail (butlast (a # b # c # s)) else a # b # c # s)"
  by (subst squeeze_tail.simps, simp)+

text \<open>The model yields the shapes that \<^verbatim>\<open>tests/test_utils.py\<close> expects.\<close>

lemma normalize_shape_batched_tests:
  "normalize_shape [1, 100] True = [1, 100]"
  "normalize_shape [100, 100] True = [100, 100]"
  "normalize_shape [10, 224, 224, 3] True = [10, 224, 224, 3]"
  "normalize_shape [10, 3, 224, 224] True = [10, 3, 224, 224]"
  "normalize_shape [10, 3, 224, 224, 1] True = [10, 3, 224, 224]"
  "normalize_shape [10, 3, 224, 224, 1, 1, 1, 1] True = [10, 3, 224, 224]"
  "normalize_shape [1, 1, 1, 1, 1, 1, 1] True = [1, 1]"
  "normalize_shape [1, 1] True = [1, 1]"
  by (simp_all add: normalize_shape_def squeeze_tail_eval)

lemma normalize_shape_unbatched_tests:
  "normalize_shape [1] False = [1, 1]"
  "normalize_shape [100] False = [1, 100]"
  "normalize_shape [100, 100] False = [1, 100, 100]"
  "normalize_shape [3, 224, 224, 1, 1, 1, 1] False = [1, 3, 224, 224]"
  "normalize_shape [10, 3, 224, 224, 1, 1, 1, 1] False = [1, 10, 3, 224, 224]"
  "normalize_shape [1, 1] False = [1, 1]"
  "normalize_shape [1, 1, 1, 1, 1, 1, 1] False = [1, 1]"
  by (simp_all add: normalize_shape_def squeeze_tail_eval)

theorem normalize_and_batchify_shape_contract_witness:
  "(2::nat) \<le> length [1, 3, 224, 224, 1, 1, 1, 1 :: nat] \<and>
   shape (normalize_and_batchify_shape
      \<lparr>dtype = uint8, shape = [3, 224, 224, 1, 1, 1, 1], data = replicate 150528 (CHR ''x'')\<rparr> False) =
     [1, 3, 224, 224] \<and>
   2 \<le> length (shape (normalize_and_batchify_shape
      \<lparr>dtype = uint8, shape = [3, 224, 224, 1, 1, 1, 1], data = replicate 150528 (CHR ''x'')\<rparr> False)) \<and>
   shape (normalize_and_batchify_shape \<lparr>dtype = float64, shape = [1, 1, 1], data = ''abcdefgh''\<rparr> True) =
     [1, 1]"
proof -
  let ?a = "\<lparr>dtype = uint8, shape = [3, 224, 224, 1, 1, 1, 1], data = replicate 150528 (CHR ''x'')\<rparr>"
  let ?b = "\<lparr>dtype = float64, shape = [1, 1, 1], data = ''abcdefgh''\<rparr>"
  have 1: "shape (normalize_and_batchify_shape ?a False) = [1, 3, 224, 224]"
    by (simp add: normalize_and_batchify_shape_def normalize_shape_def squeeze_tail_eval)
  note t = normalize_and_batchify_shape_contract [of False ?a, unfolded Let_def, THEN conjunct1]
  from t have "2 \<le> length (if False then shape ?a else 1 # shape ?a) \<longrightarrow>
      2 \<le> length (shape (normalize_and_batchify_shape ?a False))"
    by blast
  then have 2: "2 \<le> length (shape (normalize_and_batchify_shape ?a False))"
    by simp
  note u = normalize_and_batchify_shape_contract [of True ?b, unfolded Let_def, THEN conjunct1]
  from u have "(\<forall>d \<in> set (if True then shape ?b else 1 # shape ?b). d = 1) \<and>
      2 \<le> length (if True then shape ?b else 1 # shape ?b) \<longrightarrow>
      shape (normalize_and_batchify_shape ?b True) = [1, 1]"
    by blast
  then have 3: "shape (normalize_and_batchify_shape ?b True) = [1, 1]"
    by simp
  from 1 2 3 show ?thesis by simp
qed

section \<open>Properties of the index map and of the reader\<close>

lemma dec_nat_enc_nat [simp]: "dec_nat (enc_nat n @ rest) = Some (n, rest)"
  by (induction n) (simp_all add: enc_nat_def)

lemma dec_nats_enc [simp]:
  "dec_nats (length ns) (concat (map enc_nat ns) @ rest) = Some (ns, rest)"
  by (induction ns) simp_all

lemma dec_dtype_enc_dtype [simp]: "dec_dtype (enc_dtype d) = Some d"
  by (cases d) (simp_all add: dec_dtype_def)

lemma dec_entry_enc_entry [simp]: "dec_entry (enc_entry e @ rest) = Some (e, rest)"
  by (simp add: dec_entry_def enc_entry_def)

lemma dec_entries_enc [simp]:
  "dec_entries (length m) (concat (map enc_entry m) @ rest) = Some (m, rest)"
  by (induction m) simp_all

lemma toy_loads_toy_dumps: "toy_loads (toy_dumps index_map) = Some index_map"
  using dec_entries_enc [of index_map "[]"]
  by (simp add: toy_loads_def toy_dumps_def)

lemma toy_decompressor_toy_compressor: "toy_decompressor (toy_compressor chunk) = chunk"
  by (simp add: toy_decompressor_def toy_compressor_def)

lemma read_chunks_stored:
  assumes "\<forall>i \<in> set indices. provider_get storage (chunk_key_of key i) = Some (compressor (chunks ! i))"
    and "\<And>x. decompressor (compressor x) = x"
  shows "read_chunks decompressor key storage indices = Inr (concat (map (\<lambda>i. chunks ! i) indices))"
  using assms(1) by (induction indices) (simp_all add: assms(2))

lemma chunk_and_write_array_success:
  assumes empty: "\<forall>cache \<in> set cache_chain. mapper cache = []"
    and fit: "\<forall>chunk \<in> set (generate_chunks (array_to_bytes array) chunk_size None).
        fits_some cache_chain (length (compressor chunk))"
    and ne: "generate_chunks (array_to_bytes array) chunk_size None \<noteq> []"
  shows "\<exists>chain' storage'.
    chunk_and_write_array pickle_dumps array key compressor chunk_size storage cache_chain False =
      (Inr (), chain', storage') \<and>
    (\<forall>cache \<in> set chain'. mapper cache = []) \<and>
    provider_get storage' (index_map_key_of key) =
      Some (pickle_dumps
        [\<lparr>start_chunk = 0,
          end_chunk = length (generate_chunks (array_to_bytes array) chunk_size None) - 1,
          entry_dtype = dtype array, entry_shape = shape array\<rparr>]) \<and>
    (\<forall>j < length (generate_chunks (array_to_bytes array) chunk_size None).
       provider_get storage' (chunk_key_of key j) =
         Some (compressor (generate_chunks (array_to_bytes array) chunk_size None ! j))) \<and>
    (\<forall>k. k \<noteq> index_map_key_of key \<and>
       (\<forall>j < length (generate_chunks (array_to_bytes array) chunk_size None).
          k \<noteq> chunk_key_of key j) \<longrightarrow>
       provider_get storage' k = provider_get storage k)"
proof -
  let ?chunks = "generate_chunks (array_to_bytes array) chunk_size None"
  let ?entry = "\<lparr>start_chunk = 0, end_chunk = length ?chunks - 1,
      entry_dtype = dtype array, entry_shape = shape array\<rparr>"
  from chunk_and_write_bytes_success [OF empty fit ne, of key storage]
  obtain chain' storage1 where
    w: "chunk_and_write_bytes (array_to_bytes array) key compressor chunk_size storage cache_chain =
        (Inr (0, length ?chunks - 1), chain', storage1)"
    and e: "\<forall>cache \<in> set chain'. mapper cache = []"
    and i: "\<forall>j < length ?chunks. provider_get storage1 (chunk_key_of key j) =
        Some (compressor (?chunks ! j))"
    and o: "\<forall>k. (\<forall>j < length ?chunks. k \<noteq> chunk_key_of key j) \<longrightarrow>
        provider_get storage1 k = provider_get storage k"
    by blast
  let ?storage' = "write_to_storage (index_map_key_of key) (pickle_dumps [?entry]) storage1"
  have 1: "chunk_and_write_array pickle_dumps array key compressor chunk_size storage cache_chain False =
      (Inr (), chain', ?storage')"
    by (simp add: chunk_and_write_array_def Let_def w)
  have 3: "provider_get ?storage' (index_map_key_of key) = Some (pickle_dumps [?entry])"
    by (simp add: write_to_storage_def)
  have 4: "\<forall>j < length ?chunks. provider_get ?storage' (chunk_key_of key j) =
      Some (compressor (?chunks ! j))"
    using i by (simp add: write_to_storage_def)
  have 5: "\<forall>k. k \<noteq> index_map_key_of key \<and> (\<forall>j < length ?chunks. k \<noteq> chunk_key_of key j) \<longrightarrow>
      provider_get ?storage' k = provider_get storage k"
    using o by (simp add: write_to_storage_def)
  from 1 e 3 4 5 show ?thesis by blast
qed


text \<open>
  Claim C4 is not what the code does: \<^verbatim>\<open>chunk_and_write_array\<close> builds the index map anew as
  the list of the one entry of this call (lines 40 to 50) and stores it under the index-map
  key (line 55). After a write that succeeds, from empty tiers, the key holds the
  serialised one-entry list, whatever it held before, and the tiers are empty again.
\<close>

theorem index_map_holds_one_entry:
  assumes "1 \<le> chunk_size" and "array_to_bytes array \<noteq> []"
    and "\<forall>cache \<in> set cache_chain. mapper cache = []"
    and "\<forall>chunk \<in> set (generate_chunks (array_to_bytes array) chunk_size None).
        fits_some cache_chain (length (compressor chunk))"
  shows "fst (chunk_and_write_array pickle_dumps array key compressor chunk_size storage
            cache_chain False) = Inr () \<and>
    (\<forall>cache \<in> set (fst (snd (chunk_and_write_array pickle_dumps array key compressor chunk_size
        storage cache_chain False))). mapper cache = []) \<and>
    provider_get (snd (snd (chunk_and_write_array pickle_dumps array key compressor chunk_size
        storage cache_chain False))) (index_map_key_of key) =
      Some (pickle_dumps
        [\<lparr>start_chunk = 0,
          end_chunk = length (generate_chunks (array_to_bytes array) chunk_size None) - 1,
          entry_dtype = dtype array, entry_shape = shape array\<rparr>])"
proof -
  have ne: "generate_chunks (array_to_bytes array) chunk_size None \<noteq> []"
    using assms(1,2) by (intro generate_chunks_nonempty) simp_all
  from chunk_and_write_array_success [OF assms(3,4) ne, of pickle_dumps key storage]
  obtain chain' storage' where
    "chunk_and_write_array pickle_dumps array key compressor chunk_size storage cache_chain False =
      (Inr (), chain', storage')"
    "\<forall>cache \<in> set chain'. mapper cache = []"
    "provider_get storage' (index_map_key_of key) =
      Some (pickle_dumps
        [\<lparr>start_chunk = 0,
          end_chunk = length (generate_chunks (array_to_bytes array) chunk_size None) - 1,
          entry_dtype = dtype array, entry_shape = shape array\<rparr>])"
    by blast
  then show ?thesis by simp
qed

theorem index_map_holds_one_entry_witness:
  "(1::nat) \<le> 4 \<and> array_to_bytes \<lparr>dtype = uint8, shape = [2], data = ''de''\<rparr> \<noteq> [] \<and>
   fst (chunk_and_write_array toy_dumps \<lparr>dtype = uint8, shape = [3], data = ''abc''\<rparr> ''tensor''
          toy_compressor 4 \<lparr>mapper = [], max_size = None\<rparr> [] False) = Inr () \<and>
   provider_get
     (snd (snd (chunk_and_write_array toy_dumps \<lparr>dtype = uint8, shape = [2], data = ''de''\<rparr> ''tensor''
        toy_compressor 4
        (snd (snd (chunk_and_write_array toy_dumps \<lparr>dtype = uint8, shape = [3], data = ''abc''\<rparr>
           ''tensor'' toy_compressor 4 \<lparr>mapper = [], max_size = None\<rparr> [] False)))
        [] False)))
     ''tensor/index_map'' =
     Some (toy_dumps [\<lparr>start_chunk = 0, end_chunk = 0, entry_dtype = uint8, entry_shape = [2]\<rparr>]) \<and>
   toy_loads (toy_dumps [\<lparr>start_chunk = 0, end_chunk = 0, entry_dtype = uint8, entry_shape = [2]\<rparr>]) =
     Some [\<lparr>start_chunk = 0, end_chunk = 0, entry_dtype = uint8, entry_shape = [2]\<rparr>]"
proof -
  let ?a1 = "\<lparr>dtype = uint8, shape = [3], data = ''abc''\<rparr>"
  let ?a2 = "\<lparr>dtype = uint8, shape = [2], data = ''de''\<rparr>"
  let ?s0 = "\<lparr>mapper = [], max_size = None\<rparr>"
  let ?R1 = "chunk_and_write_array toy_dumps ?a1 ''tensor'' toy_compressor 4 ?s0 [] False"
  let ?R2 = "chunk_and_write_array toy_dumps ?a2 ''tensor'' toy_compressor 4 (snd (snd ?R1)) [] False"
  have k: "index_map_key_of ''tensor'' = ''tensor/index_map''" by code_simp
  have g: "generate_chunks (array_to_bytes ?a2) 4 None = [''de'']" by code_simp
  have 1: "fst ?R1 = Inr ()"
    using index_map_holds_one_entry [of 4 ?a1 "[]" toy_compressor toy_dumps "''tensor''" ?s0]
    by (simp add: array_to_bytes_def fits_some_def)
  have "provider_get (snd (snd ?R2)) (index_map_key_of ''tensor'') =
      Some (toy_dumps
        [\<lparr>start_chunk = 0, end_chunk = length (generate_chunks (array_to_bytes ?a2) 4 None) - 1,
          entry_dtype = dtype ?a2, entry_shape = shape ?a2\<rparr>])"
    using index_map_holds_one_entry [of 4 ?a2 "[]" toy_compressor toy_dumps "''tensor''"
        "snd (snd ?R1)"]
    by (simp add: array_to_bytes_def fits_some_def)
  then have 2: "provider_get (snd (snd ?R2)) ''tensor/index_map'' =
      Some (toy_dumps [\<lparr>start_chunk = 0, end_chunk = 0, entry_dtype = uint8, entry_shape = [2]\<rparr>])"
    unfolding k g by simp
  show ?thesis
    using 1 2 by (simp add: toy_loads_toy_dumps array_to_bytes_def)
qed

lemma ones_of_rotation: "1 # t = t @ replicate k 1 \<Longrightarrow> \<forall>d \<in> set t. d = (1::nat)"
proof (induction t)
  case Nil
  then show ?case by simp
next
  case (Cons x t)
  from Cons.prems have x: "x = 1" by simp
  from Cons.prems have "1 # t = t @ replicate k 1" by (simp add: x)
  then have "\<forall>d \<in> set t. d = 1" by (rule Cons.IH)
  with x show ?case by simp
qed

lemma squeeze_tail_fixed: "s = squeeze_tail (1 # s) \<longleftrightarrow> s = [1, 1]"
proof
  assume e: "s = squeeze_tail (1 # s)"
  obtain t k where r: "squeeze_tail (1 # s) = 1 # t" and s: "s = t @ replicate k 1"
    using squeeze_tail_Cons [of 1 s] by blast
  from e r have st: "s = 1 # t" by simp
  with s have "1 # t = t @ replicate k 1" by simp
  then have "\<forall>d \<in> set t. d = 1" by (rule ones_of_rotation)
  with st have "\<forall>d \<in> set (1 # s). d = 1" by simp
  moreover have "2 \<le> length (1 # s)" using st by simp
  ultimately have "squeeze_tail (1 # s) = [1, 1]" by (rule squeeze_tail_ones)
  with e show "s = [1, 1]" by simp
next
  assume "s = [1, 1]"
  then show "s = squeeze_tail (1 # s)" by (simp add: squeeze_tail_eval)
qed

text \<open>
  Claim C1 is not what the code does: \<^verbatim>\<open>chunk_and_write_array\<close> never normalizes, it records
  the shape of the array as passed (line 48). For a compressor with a correct inverse, a
  serialiser that its loader inverts, a chunk size of at least 1 and a non-empty array, an
  unbatched write that starts from empty tiers, each compressed chunk fitting some tier,
  succeeds, and reading sample 0 back right after it returns the array record that was
  written: the dtype and the bytes of the array, and its shape as passed, not normalized.
\<close>

theorem read_sample_after_write:
  assumes inv: "\<And>x. decompressor (compressor x) = x"
    and pickle: "\<And>index_map. pickle_loads (pickle_dumps index_map) = Some index_map"
    and c: "1 \<le> chunk_size" and ne: "array_to_bytes array \<noteq> []"
    and empty: "\<forall>cache \<in> set cache_chain. mapper cache = []"
    and fit: "\<forall>chunk \<in> set (generate_chunks (array_to_bytes array) chunk_size None).
        fits_some cache_chain (length (compressor chunk))"
  shows "fst (chunk_and_write_array pickle_dumps array key compressor chunk_size storage
            cache_chain False) = Inr () \<and>
    read_sample pickle_loads decompressor key 0
      (snd (snd (chunk_and_write_array pickle_dumps array key compressor chunk_size storage
         cache_chain False))) = Inr array \<and>
    data array = data (normalize_and_batchify_shape array False) \<and>
    dtype array = dtype (normalize_and_batchify_shape array False) \<and>
    (shape array = shape (normalize_and_batchify_shape array False) \<longleftrightarrow>
       shape array = [1, 1])"
proof -
  let ?chunks = "generate_chunks (array_to_bytes array) chunk_size None"
  let ?entry = "\<lparr>start_chunk = 0, end_chunk = length ?chunks - 1,
      entry_dtype = dtype array, entry_shape = shape array\<rparr>"
  have c0: "0 < chunk_size" using c by simp
  have cne: "?chunks \<noteq> []" using c0 ne by (rule generate_chunks_nonempty)
  from chunk_and_write_array_success [OF empty fit cne, of pickle_dumps key storage]
  obtain chain' storage' where
    r: "chunk_and_write_array pickle_dumps array key compressor chunk_size storage cache_chain False =
      (Inr (), chain', storage')"
    and im: "provider_get storage' (index_map_key_of key) = Some (pickle_dumps [?entry])"
    and ch: "\<forall>j < length ?chunks. provider_get storage' (chunk_key_of key j) =
         Some (compressor (?chunks ! j))"
    by blast
  have idx: "[0 ..< Suc (length ?chunks - Suc 0)] = [0 ..< length ?chunks]"
    using cne by simp
  have "\<forall>i \<in> set [0 ..< length ?chunks].
      provider_get storage' (chunk_key_of key i) = Some (compressor (?chunks ! i))"
    using ch by simp
  then have "read_chunks decompressor key storage' [0 ..< length ?chunks] =
      Inr (concat (map (\<lambda>i. ?chunks ! i) [0 ..< length ?chunks]))"
    using inv by (rule read_chunks_stored)
  also have "map (\<lambda>i. ?chunks ! i) [0 ..< length ?chunks] = ?chunks"
    by (rule map_nth)
  also have "concat ?chunks = array_to_bytes array"
    using c0 by (rule concat_generate_chunks)
  finally have rc: "read_chunks decompressor key storage' [0 ..< length ?chunks] =
      Inr (data array)"
    by (simp add: array_to_bytes_def)
  have "read_sample pickle_loads decompressor key 0 storage' =
      Inr \<lparr>dtype = dtype array, shape = shape array, data = data array\<rparr>"
    by (simp add: read_sample_def im pickle Let_def idx rc del: upt_Suc)
  then have 2: "read_sample pickle_loads decompressor key 0 storage' = Inr array"
    by simp
  have 3: "data array = data (normalize_and_batchify_shape array False)"
    "dtype array = dtype (normalize_and_batchify_shape array False)"
    by (simp_all add: normalize_and_batchify_shape_def)
  have 4: "shape array = shape (normalize_and_batchify_shape array False) \<longleftrightarrow>
      shape array = [1, 1]"
    using squeeze_tail_fixed [of "shape array"]
    by (simp add: normalize_and_batchify_shape_def normalize_shape_def)
  from 2 3 4 show ?thesis by (simp add: r)
qed

theorem read_sample_after_write_witness:
  "toy_decompressor (toy_compressor ''abc'') = ''abc'' \<and> (1::nat) \<le> 4 \<and>
   array_to_bytes \<lparr>dtype = uint8, shape = [3], data = ''abc''\<rparr> \<noteq> [] \<and>
   read_sample toy_loads toy_decompressor ''tensor'' 0
     (snd (snd (chunk_and_write_array toy_dumps \<lparr>dtype = uint8, shape = [3], data = ''abc''\<rparr>
        ''tensor'' toy_compressor 4 \<lparr>mapper = [], max_size = None\<rparr> [] False))) =
     Inr \<lparr>dtype = uint8, shape = [3], data = ''abc''\<rparr> \<and>
   normalize_and_batchify_shape \<lparr>dtype = uint8, shape = [3], data = ''abc''\<rparr> False =
     \<lparr>dtype = uint8, shape = [1, 3], data = ''abc''\<rparr> \<and>
   read_sample toy_loads toy_decompressor ''tensor'' 0
     (snd (snd (chunk_and_write_array toy_dumps \<lparr>dtype = uint8, shape = [3], data = ''abc''\<rparr>
        ''tensor'' toy_compressor 4 \<lparr>mapper = [], max_size = None\<rparr> [] False))) \<noteq>
     Inr (normalize_and_batchify_shape \<lparr>dtype = uint8, shape = [3], data = ''abc''\<rparr> False)"
proof -
  let ?a = "\<lparr>dtype = uint8, shape = [3], data = ''abc''\<rparr>"
  let ?R = "chunk_and_write_array toy_dumps ?a ''tensor'' toy_compressor 4
      \<lparr>mapper = [], max_size = None\<rparr> [] False"
  have ne: "array_to_bytes ?a \<noteq> []" by (simp add: array_to_bytes_def)
  have e: "\<forall>cache \<in> set ([] :: provider list). mapper cache = []" by simp
  have fit: "\<forall>chunk \<in> set (generate_chunks (array_to_bytes ?a) 4 None).
      fits_some [] (length (toy_compressor chunk))"
    by (simp add: fits_some_def)
  have c: "(1::nat) \<le> 4" by simp
  note t = read_sample_after_write [of toy_decompressor toy_compressor toy_loads toy_dumps 4 ?a
      "[]" "''tensor''" "\<lparr>mapper = [], max_size = None\<rparr>",
      OF toy_decompressor_toy_compressor toy_loads_toy_dumps c ne e fit]
  from t have 1: "read_sample toy_loads toy_decompressor ''tensor'' 0 (snd (snd ?R)) = Inr ?a"
    by blast
  have 2: "normalize_and_batchify_shape ?a False = \<lparr>dtype = uint8, shape = [1, 3], data = ''abc''\<rparr>"
    by (simp add: normalize_and_batchify_shape_def normalize_shape_def squeeze_tail_eval)
  show ?thesis
    unfolding 1 2 using ne by (simp add: toy_decompressor_toy_compressor)
qed

text \<open>
  After a second write to the key, sample 1 is out of range: the index map holds the
  entry of the second write only.
\<close>

lemma read_sample_second_sample_out_of_range:
  "read_sample toy_loads toy_decompressor ''tensor'' 1
     (snd (snd (chunk_and_write_array toy_dumps \<lparr>dtype = uint8, shape = [2], data = ''de''\<rparr> ''tensor''
        toy_compressor 4
        (snd (snd (chunk_and_write_array toy_dumps \<lparr>dtype = uint8, shape = [3], data = ''abc''\<rparr>
           ''tensor'' toy_compressor 4 \<lparr>mapper = [], max_size = None\<rparr> [] False)))
        [] False))) = Inl IndexError"
  by code_simp

section \<open>Placement of a write in the cache chain\<close>

text \<open>
  Claim C6. With an empty chain the bytes are written directly to the backend. Otherwise
  the tiers are scanned in order and the bytes are stored in the first tier that has
  room: if tier \<open>i\<close> has room and no tier before it has, the write succeeds, tier \<open>i\<close>
  holds the bytes under the key, and every other tier and the backend are unchanged. If
  no tier has room, the chain is flushed and scanned again: the bytes are stored in the
  first flushed tier that has room, the other tiers and the backend being as the flush
  left them; and if no flushed tier has room either, the write raises and the chain and
  the backend are as the flush left them. These four cases are all there are.
\<close>

theorem cache_chain_placement:
  "write_bytes_with_caching key b [] storage = (Inr (), [], write_to_storage key b storage) \<and>
   provider_get (write_to_storage key b storage) key = Some b \<and>
   (i < length cache_chain \<and> has_space (cache_chain ! i) (length b) \<and>
    (\<forall>j < i. \<not> has_space (cache_chain ! j) (length b)) \<longrightarrow>
      write_bytes_with_caching key b cache_chain storage =
        (Inr (), cache_chain[i := provider_set (cache_chain ! i) key b], storage) \<and>
      provider_get (provider_set (cache_chain ! i) key b) key = Some b) \<and>
   (let flushed = fst (flush_cache cache_chain storage)
    in cache_chain \<noteq> [] \<and> (\<forall>cache \<in> set cache_chain. \<not> has_space cache (length b)) \<and>
       i < length flushed \<and> has_space (flushed ! i) (length b) \<and>
       (\<forall>j < i. \<not> has_space (flushed ! j) (length b)) \<longrightarrow>
         write_bytes_with_caching key b cache_chain storage =
           (Inr (), flushed[i := provider_set (flushed ! i) key b],
            snd (flush_cache cache_chain storage)) \<and>
         provider_get (provider_set (flushed ! i) key b) key = Some b) \<and>
   (cache_chain \<noteq> [] \<and> (\<forall>cache \<in> set cache_chain. \<not> has_space cache (length b)) \<and>
    (\<forall>cache \<in> set (fst (flush_cache cache_chain storage)). \<not> has_space cache (length b)) \<longrightarrow>
      write_bytes_with_caching key b cache_chain storage =
        (Inl CachingFailed, flush_cache cache_chain storage))"
proof -
  let ?flushed = "fst (flush_cache cache_chain storage)"
  have fl: "?flushed = map (\<lambda>cache. cache\<lparr>mapper := []\<rparr>) cache_chain"
    by (rule flush_cache_chain)
  have 1: "write_bytes_with_caching key b [] storage = (Inr (), [], write_to_storage key b storage)"
    by (simp add: write_bytes_with_caching_def)
  have 2: "provider_get (write_to_storage key b storage) key = Some b"
    by (simp add: write_to_storage_def)
  have 3: "i < length cache_chain \<and> has_space (cache_chain ! i) (length b) \<and>
    (\<forall>j < i. \<not> has_space (cache_chain ! j) (length b)) \<longrightarrow>
      write_bytes_with_caching key b cache_chain storage =
        (Inr (), cache_chain[i := provider_set (cache_chain ! i) key b], storage) \<and>
      provider_get (provider_set (cache_chain ! i) key b) key = Some b"
  proof
    assume h: "i < length cache_chain \<and> has_space (cache_chain ! i) (length b) \<and>
      (\<forall>j < i. \<not> has_space (cache_chain ! j) (length b))"
    then have "write_to_cache key b cache_chain =
       (True, cache_chain[i := provider_set (cache_chain ! i) key b])"
      by (intro write_to_cache_first) simp_all
    moreover have "cache_chain \<noteq> []" using h by auto
    ultimately have "write_bytes_with_caching key b cache_chain storage =
          (Inr (), cache_chain[i := provider_set (cache_chain ! i) key b], storage)"
      by (simp add: write_bytes_with_caching_def)
    then show "write_bytes_with_caching key b cache_chain storage =
        (Inr (), cache_chain[i := provider_set (cache_chain ! i) key b], storage) \<and>
      provider_get (provider_set (cache_chain ! i) key b) key = Some b"
      by simp
  qed
  have 4: "cache_chain \<noteq> [] \<and> (\<forall>cache \<in> set cache_chain. \<not> has_space cache (length b)) \<and>
       i < length ?flushed \<and> has_space (?flushed ! i) (length b) \<and>
       (\<forall>j < i. \<not> has_space (?flushed ! j) (length b)) \<longrightarrow>
         write_bytes_with_caching key b cache_chain storage =
           (Inr (), ?flushed[i := provider_set (?flushed ! i) key b],
            snd (flush_cache cache_chain storage)) \<and>
         provider_get (provider_set (?flushed ! i) key b) key = Some b"
  proof
    assume h: "cache_chain \<noteq> [] \<and> (\<forall>cache \<in> set cache_chain. \<not> has_space cache (length b)) \<and>
       i < length ?flushed \<and> has_space (?flushed ! i) (length b) \<and>
       (\<forall>j < i. \<not> has_space (?flushed ! j) (length b))"
    from h have ne: "cache_chain \<noteq> []" by (rule conjunct1)
    from h have "\<forall>cache \<in> set cache_chain. \<not> has_space cache (length b)" by blast
    then have a: "write_to_cache key b cache_chain = (False, cache_chain)"
      by (rule write_to_cache_none)
    from h have "i < length ?flushed" "has_space (?flushed ! i) (length b)"
      "\<forall>j < i. \<not> has_space (?flushed ! j) (length b)"
      by blast+
    then have "write_to_cache key b ?flushed =
        (True, ?flushed[i := provider_set (?flushed ! i) key b])"
      by (rule write_to_cache_first)
    then have c: "write_to_cache key b (map (\<lambda>cache. cache\<lparr>mapper := []\<rparr>) cache_chain) =
        (True, ?flushed[i := provider_set (?flushed ! i) key b])"
      unfolding fl [symmetric] .
    have "write_bytes_with_caching key b cache_chain storage =
        (Inr (), ?flushed[i := provider_set (?flushed ! i) key b],
         snd (flush_cache cache_chain storage))"
      by (subst write_bytes_with_caching_unfold) (simp add: ne a c)
    then show "write_bytes_with_caching key b cache_chain storage =
           (Inr (), ?flushed[i := provider_set (?flushed ! i) key b],
            snd (flush_cache cache_chain storage)) \<and>
         provider_get (provider_set (?flushed ! i) key b) key = Some b"
      by simp
  qed
  have 5: "cache_chain \<noteq> [] \<and> (\<forall>cache \<in> set cache_chain. \<not> has_space cache (length b)) \<and>
    (\<forall>cache \<in> set ?flushed. \<not> has_space cache (length b)) \<longrightarrow>
      write_bytes_with_caching key b cache_chain storage =
        (Inl CachingFailed, flush_cache cache_chain storage)"
  proof
    assume h: "cache_chain \<noteq> [] \<and> (\<forall>cache \<in> set cache_chain. \<not> has_space cache (length b)) \<and>
      (\<forall>cache \<in> set ?flushed. \<not> has_space cache (length b))"
    from h have ne: "cache_chain \<noteq> []" by (rule conjunct1)
    from h have "\<forall>cache \<in> set cache_chain. \<not> has_space cache (length b)" by blast
    then have a: "write_to_cache key b cache_chain = (False, cache_chain)"
      by (rule write_to_cache_none)
    from h have "\<forall>cache \<in> set ?flushed. \<not> has_space cache (length b)" by blast
    then have "write_to_cache key b ?flushed = (False, ?flushed)"
      by (rule write_to_cache_none)
    then have c: "write_to_cache key b (map (\<lambda>cache. cache\<lparr>mapper := []\<rparr>) cache_chain) =
        (False, ?flushed)"
      unfolding fl [symmetric] .
    have "write_bytes_with_caching key b cache_chain storage =
        (Inl CachingFailed, map (\<lambda>cache. cache\<lparr>mapper := []\<rparr>) cache_chain,
         snd (flush_cache cache_chain storage))"
      by (subst write_bytes_with_caching_unfold) (simp add: ne a c)
    then show "write_bytes_with_caching key b cache_chain storage =
        (Inl CachingFailed, flush_cache cache_chain storage)"
      by (simp add: prod_eq_iff flush_cache_chain)
  qed
  from 1 2 3 4 5 show ?thesis
    unfolding Let_def by blast
qed

theorem cache_chain_placement_witness:
  "(1::nat) < length [\<lparr>mapper = [(''a'', ''xy'')], max_size = Some 2\<rparr>, \<lparr>mapper = [], max_size = Some 4\<rparr>] \<and>
   \<not> has_space \<lparr>mapper = [(''a'', ''xy'')], max_size = Some 2\<rparr> (length ''abc'') \<and>
   has_space \<lparr>mapper = [], max_size = Some 4\<rparr> (length ''abc'') \<and>
   write_bytes_with_caching ''k/c0'' ''abc''
     [\<lparr>mapper = [(''a'', ''xy'')], max_size = Some 2\<rparr>, \<lparr>mapper = [], max_size = Some 4\<rparr>]
     \<lparr>mapper = [], max_size = None\<rparr> =
   (Inr (),
    [\<lparr>mapper = [(''a'', ''xy'')], max_size = Some 2\<rparr>,
     \<lparr>mapper = [(''k/c0'', ''abc'')], max_size = Some 4\<rparr>],
    \<lparr>mapper = [], max_size = None\<rparr>) \<and>
   \<not> has_space \<lparr>mapper = [(''a'', ''xy'')], max_size = Some 3\<rparr> (length ''abc'') \<and>
   has_space \<lparr>mapper = [], max_size = Some 3\<rparr> (length ''abc'') \<and>
   write_bytes_with_caching ''k/c0'' ''abc''
     [\<lparr>mapper = [(''a'', ''xy'')], max_size = Some 3\<rparr>] \<lparr>mapper = [], max_size = None\<rparr> =
   (Inr (), [\<lparr>mapper = [(''k/c0'', ''abc'')], max_size = Some 3\<rparr>],
    \<lparr>mapper = [(''a'', ''xy'')], max_size = None\<rparr>)"
proof -
  let ?s = "\<lparr>mapper = [], max_size = None\<rparr>"
  let ?two = "[\<lparr>mapper = [(''a'', ''xy'')], max_size = Some (2::nat)\<rparr>,
      \<lparr>mapper = [], max_size = Some 4\<rparr>]"
  let ?one = "[\<lparr>mapper = [(''a'', ''xy'')], max_size = Some (3::nat)\<rparr>]"
  have h1: "\<not> has_space \<lparr>mapper = [(''a'', ''xy'')], max_size = Some 2\<rparr> (length ''abc'')"
    "has_space \<lparr>mapper = [], max_size = Some 4\<rparr> (length ''abc'')"
    "\<not> has_space \<lparr>mapper = [(''a'', ''xy'')], max_size = Some 3\<rparr> (length ''abc'')"
    "has_space \<lparr>mapper = [], max_size = Some 3\<rparr> (length ''abc'')"
    by (simp_all add: has_space_def used_space_def)
  have first: "write_bytes_with_caching ''k/c0'' ''abc'' ?two ?s =
      (Inr (), [\<lparr>mapper = [(''a'', ''xy'')], max_size = Some 2\<rparr>,
         \<lparr>mapper = [(''k/c0'', ''abc'')], max_size = Some 4\<rparr>], ?s)"
    using cache_chain_placement [of "''k/c0''" "''abc''" ?s 1 ?two] h1
    by (simp add: provider_set_def)
  have fl: "flush_cache ?one ?s =
      ([\<lparr>mapper = [], max_size = Some 3\<rparr>], \<lparr>mapper = [(''a'', ''xy'')], max_size = None\<rparr>)"
    by (simp add: flush_tier_def provider_set_def provider_del_def)
  note t = cache_chain_placement [of "''k/c0''" "''abc''" ?s 0 ?one,
      unfolded Let_def fl fst_conv snd_conv]
  have retry: "write_bytes_with_caching ''k/c0'' ''abc'' ?one ?s =
      (Inr (), [\<lparr>mapper = [(''k/c0'', ''abc'')], max_size = Some 3\<rparr>],
       \<lparr>mapper = [(''a'', ''xy'')], max_size = None\<rparr>)"
    using t h1 by (simp add: provider_set_def)
  from h1 first retry show ?thesis by simp
qed

end
